theory Spec2Isabelle
  imports Main "HOL-Library.Sublist" "HOL-Library.Multiset"
begin

section \<open>Data model of \<open>folder_analyzer.py\<close>\<close>

text \<open>
  The two dataclasses of the module. \<open>size\<close> is a Python \<open>int\<close> read by \<open>int(size_str)\<close>,
  so it is an unbounded, possibly negative integer; the field is called \<open>size_bytes\<close> here
  because \<open>size\<close> is a constant of HOL.

  A Python \<open>dict\<close> keeps its keys in insertion order and that order decides the order in
  which groups are discovered, so every dictionary is an association list with distinct
  keys, in insertion order. A Python \<open>set\<close> of folder names is a HOL set.
\<close>

record DuplicateFile =
  group_id :: string
  folder :: string
  path :: string
  size_bytes :: int

type_synonym shared_files_dict = "(string \<times> DuplicateFile list) list"

record FolderGroup =
  folders :: "string set"
  shared_files :: shared_files_dict
  total_shared_size :: int
  wasted_space :: int

datatype py_error = IndexError

section \<open>Dictionaries with a default (\<open>defaultdict\<close>)\<close>

text \<open>
  \<open>d[k] = f(d[k])\<close> on a \<open>defaultdict\<close>: an existing entry is updated in place, a missing
  key is inserted at the end with \<open>f\<close> applied to the default value.
\<close>

fun dd_update :: "'k \<Rightarrow> 'v \<Rightarrow> ('v \<Rightarrow> 'v) \<Rightarrow> ('k \<times> 'v) list \<Rightarrow> ('k \<times> 'v) list" where
  "dd_update k dflt f [] = [(k, f dflt)]"
| "dd_update k dflt f ((k', v) # rest) =
     (if k' = k then (k', f v) # rest else (k', v) # dd_update k dflt f rest)"

text \<open>\<open>d[k].append(x)\<close> on a \<open>defaultdict(list)\<close>.\<close>

definition dd_append :: "'k \<Rightarrow> 'a \<Rightarrow> ('k \<times> 'a list) list \<Rightarrow> ('k \<times> 'a list) list" where
  "dd_append k x d = dd_update k [] (\<lambda>vs. vs @ [x]) d"

section \<open>\<open>analyze_folder_groups\<close>\<close>

text \<open>Lines 70-72: group the files by their duplicate group ID.\<close>

definition groups_by_id :: "DuplicateFile list \<Rightarrow> shared_files_dict" where
  "groups_by_id files = fold (\<lambda>file d. dd_append (group_id file) file d) files []"

type_synonym relationships = "(string set \<times> shared_files_dict) list"

text \<open>
  Lines 84-85: \<open>folder_relationships[folder_set][group_id].append(file)\<close> for every file of
  one cluster.
\<close>

definition add_cluster :: "string set \<Rightarrow> string \<Rightarrow> DuplicateFile list \<Rightarrow> relationships \<Rightarrow> relationships" where
  "add_cluster folder_set gid group_files rel =
     fold (\<lambda>file r. dd_update folder_set [] (dd_append gid file) r) group_files rel"

text \<open>Lines 77-85: one iteration of the loop over \<open>groups_by_id.items()\<close>.\<close>

fun relate_cluster :: "string \<times> DuplicateFile list \<Rightarrow> relationships \<Rightarrow> relationships" where
  "relate_cluster (gid, group_files) rel =
     (if card (folder ` set group_files) > 1
      then add_cluster (folder ` set group_files) gid group_files rel
      else rel)"

definition folder_relationships :: "shared_files_dict \<Rightarrow> relationships" where
  "folder_relationships by_id = fold relate_cluster by_id []"

text \<open>\<open>group_files[0].size\<close>: raises \<open>IndexError\<close> on an empty list.\<close>

fun first_size :: "DuplicateFile list \<Rightarrow> py_error + int" where
  "first_size [] = Inl IndexError"
| "first_size (file # _) = Inr (size_bytes file)"

text \<open>Lines 91-94: the loop accumulating \<open>total_shared_size\<close>.\<close>

fun total_loop :: "int \<Rightarrow> DuplicateFile list list \<Rightarrow> py_error + int" where
  "total_loop acc [] = Inr acc"
| "total_loop acc (group_files # rest) =
     (case first_size group_files of
        Inl e \<Rightarrow> Inl e
      | Inr s \<Rightarrow> total_loop (acc + s) rest)"

text \<open>Lines 97-100: \<open>sum(group_files[0].size * (len(group_files) - 1) ...)\<close>.\<close>

fun wasted_loop :: "int \<Rightarrow> DuplicateFile list list \<Rightarrow> py_error + int" where
  "wasted_loop acc [] = Inr acc"
| "wasted_loop acc (group_files # rest) =
     (case first_size group_files of
        Inl e \<Rightarrow> Inl e
      | Inr s \<Rightarrow> wasted_loop (acc + s * (int (length group_files) - 1)) rest)"

text \<open>Lines 88-109: the loop over \<open>folder_relationships.items()\<close> that fills \<open>results\<close>.\<close>

fun build_results :: "int \<Rightarrow> relationships \<Rightarrow> FolderGroup list \<Rightarrow> py_error + FolderGroup list" where
  "build_results min_group_size [] results = Inr results"
| "build_results min_group_size ((fs, sf) # rest) results =
     (case total_loop 0 (map snd sf) of
        Inl e \<Rightarrow> Inl e
      | Inr shared \<Rightarrow>
          (case wasted_loop 0 (map snd sf) of
             Inl e \<Rightarrow> Inl e
           | Inr wasted \<Rightarrow>
               build_results min_group_size rest
                 (if shared \<ge> min_group_size
                  then results @ [\<lparr>folders = fs, shared_files = sf,
                                   total_shared_size = shared, wasted_space = wasted\<rparr>]
                  else results)))"

text \<open>
  \<open>list.sort(key=lambda x: x.total_shared_size, reverse=True)\<close> and \<open>sorted\<close> with the same
  arguments: a stable sort, descending in the key. \<open>sort_key\<close> is a stable insertion sort,
  ascending, so the key is negated.
\<close>

definition sort_by_size_desc :: "FolderGroup list \<Rightarrow> FolderGroup list" where
  "sort_by_size_desc gs = sort_key (\<lambda>g. - total_shared_size g) gs"

definition analyze_folder_groups :: "int \<Rightarrow> DuplicateFile list \<Rightarrow> py_error + FolderGroup list" where
  "analyze_folder_groups min_group_size files =
     (case build_results min_group_size (folder_relationships (groups_by_id files)) [] of
        Inl e \<Rightarrow> Inl e
      | Inr results \<Rightarrow> Inr (sort_by_size_desc results))"

section \<open>\<open>compact_nested_folders\<close>\<close>

text \<open>
  The function works on Python objects: \<open>merged_files\<close> is a shallow copy of
  \<open>groups[i].shared_files\<close>, \<open>extend\<close> changes a list object in place, and the list
  \<open>groups\<close> passed in is itself changed by \<open>groups[i] = ...\<close> and \<open>pop\<close>. The model
  passes values: it gives the returned list, and it agrees with the Python as long as no
  record list is shared between two groups of the input. That holds for every list
  \<open>analyze_folder_groups\<close> returns, whose record lists are all created by
  \<open>defaultdict(list)\<close>; a merge moves the list objects of \<open>groups[j]\<close> into the merged
  group and drops \<open>groups[j]\<close>. The folder sets, the two metrics and the number of groups
  do not depend on the sharing at all. A Python \<open>set\<close> is iterated in no specified order;
  \<open>should_merge\<close> only asks whether some pair of folders is related, so the order does
  not matter.
\<close>

text \<open>\<open>s.startswith(p)\<close> is \<open>prefix p s\<close>.\<close>

definition is_nested :: "string \<Rightarrow> string \<Rightarrow> bool" where
  "is_nested folder1 folder2 \<longleftrightarrow>
     prefix (folder2 @ ''/'') folder1 \<or> prefix (folder1 @ ''/'') folder2"

definition should_merge :: "FolderGroup \<Rightarrow> FolderGroup \<Rightarrow> bool" where
  "should_merge group1 group2 \<longleftrightarrow>
     (\<exists>folder1 \<in> folders group1. \<exists>folder2 \<in> folders group2.
        folder1 = folder2 \<or> is_nested folder1 folder2)"

text \<open>
  Lines 146-150: \<open>merged_files[group_id].extend(files)\<close> when the key is present,
  \<open>merged_files[group_id] = files\<close> (a new last entry) otherwise.
\<close>

definition merge_entry :: "string \<times> DuplicateFile list \<Rightarrow> shared_files_dict \<Rightarrow> shared_files_dict" where
  "merge_entry item merged_files =
     dd_update (fst item) [] (\<lambda>old. old @ snd item) merged_files"

text \<open>Lines 142-162: the group that replaces \<open>groups[i]\<close>.\<close>

definition merge_groups :: "FolderGroup \<Rightarrow> FolderGroup \<Rightarrow> FolderGroup" where
  "merge_groups gi gj =
     \<lparr>folders = folders gi \<union> folders gj,
      shared_files = fold merge_entry (shared_files gj) (shared_files gi),
      total_shared_size = total_shared_size gi + total_shared_size gj,
      wasted_space = wasted_space gi + wasted_space gj\<rparr>"

text \<open>\<open>groups.pop(j)\<close> for an index in range.\<close>

definition pop :: "nat \<Rightarrow> 'a list \<Rightarrow> 'a list" where
  "pop j xs = take j xs @ drop (Suc j) xs"

text \<open>
  Lines 135-140: the index pairs in the order in which the two \<open>for\<close> loops visit them,
  and the first of them at which \<open>should_merge\<close> holds (the loops stop there).
\<close>

definition index_pairs :: "nat \<Rightarrow> (nat \<times> nat) list" where
  "index_pairs n = concat (map (\<lambda>i. map (\<lambda>j. (i, j)) [Suc i ..< n]) [0 ..< n])"

definition first_mergeable :: "FolderGroup list \<Rightarrow> (nat \<times> nat) option" where
  "first_mergeable groups =
     List.find (\<lambda>(i, j). should_merge (groups ! i) (groups ! j)) (index_pairs (length groups))"

text \<open>Lines 165-166: \<open>groups[i] = merged_group; groups.pop(j)\<close>.\<close>

definition merge_at :: "nat \<Rightarrow> nat \<Rightarrow> FolderGroup list \<Rightarrow> FolderGroup list" where
  "merge_at i j groups = pop j (groups[i := merge_groups (groups ! i) (groups ! j)])"

text \<open>
  Lines 133-172: the \<open>while True\<close> loop. One iteration is one scan; the loop ends at the
  first scan that merges nothing. Not returning is the value \<open>None\<close>.
\<close>

partial_function (option) merge_loop :: "FolderGroup list \<Rightarrow> FolderGroup list option" where
  "merge_loop groups =
     (case first_mergeable groups of
        None \<Rightarrow> Some groups
      | Some (i, j) \<Rightarrow> merge_loop (merge_at i j groups))"

declare merge_loop.simps [code]

definition compact_nested_folders :: "FolderGroup list \<Rightarrow> FolderGroup list option" where
  "compact_nested_folders groups =
     (if groups = [] then Some []
      else map_option sort_by_size_desc (merge_loop groups))"

section \<open>Notions used to state the properties\<close>

text \<open>Every group of the input is contained in a group of the result, and conversely.\<close>

definition covers :: "FolderGroup list \<Rightarrow> FolderGroup list \<Rightarrow> bool" where
  "covers gs0 gs \<longleftrightarrow>
     (\<forall>g0 \<in> set gs0. \<exists>g \<in> set gs. folders g0 \<subseteq> folders g) \<and>
     (\<forall>g \<in> set gs. \<exists>g0 \<in> set gs0. folders g0 \<subseteq> folders g) \<and>
     (\<Union>g \<in> set gs. folders g) = (\<Union>g \<in> set gs0. folders g)"


text \<open>The two groups of \<open>test_compact_nested_folders\<close> and the group they merge into.\<close>

definition nested_test_groups :: "FolderGroup list" where
  "nested_test_groups =
     [\<lparr>folders = {''photos/vacation'', ''backup/photos''}, shared_files = [(''1'', [])],
       total_shared_size = 1000, wasted_space = 1000\<rparr>,
      \<lparr>folders = {''photos'', ''backup''}, shared_files = [(''2'', [])],
       total_shared_size = 2000, wasted_space = 2000\<rparr>]"

definition nested_test_merged :: "FolderGroup" where
  "nested_test_merged =
     \<lparr>folders = {''photos/vacation'', ''backup/photos'', ''photos'', ''backup''},
      shared_files = [(''1'', []), (''2'', [])],
      total_shared_size = 3000, wasted_space = 3000\<rparr>"


text \<open>
  The clusters of a \<open>groups_by_id\<close> dictionary whose files lie in exactly the folder set
  \<open>K\<close>, in dictionary order.
\<close>

definition clusters_of :: "string set \<Rightarrow> shared_files_dict \<Rightarrow> shared_files_dict" where
  "clusters_of K by_id = filter (\<lambda>item. folder ` set (snd item) = K) by_id"

text \<open>
  The group that lines 91-109 build from one entry of \<open>folder_relationships\<close> when no
  list of the entry is empty (\<open>hd\<close> is only ever read on a non-empty list).
\<close>

definition group_of_entry :: "string set \<times> shared_files_dict \<Rightarrow> FolderGroup" where
  "group_of_entry entry =
     \<lparr>folders = fst entry, shared_files = snd entry,
      total_shared_size = (\<Sum>item \<leftarrow> snd entry. size_bytes (hd (snd item))),
      wasted_space = (\<Sum>item \<leftarrow> snd entry.
         size_bytes (hd (snd item)) * (int (length (snd item)) - 1))\<rparr>"

text \<open>
  Sorted by \<open>total_shared_size\<close> in descending order: every element's size is at least
  its successor's.
\<close>

definition descending_by_size :: "FolderGroup list \<Rightarrow> bool" where
  "descending_by_size gs \<longleftrightarrow>
     (\<forall>i \<in> {0 ..< length gs - 1}. total_shared_size (gs ! Suc i) \<le> total_shared_size (gs ! i))"

text \<open>
  Two folder names that make their groups mergeable, in the words of the specification:
  they are equal, or one begins with the other followed by a slash.
\<close>

definition nested_or_identical :: "string \<Rightarrow> string \<Rightarrow> bool" where
  "nested_or_identical a b \<longleftrightarrow> a = b \<or> prefix (a @ ''/'') b \<or> prefix (b @ ''/'') a"

definition mergeable :: "FolderGroup \<Rightarrow> FolderGroup \<Rightarrow> bool" where
  "mergeable g h \<longleftrightarrow> (\<exists>a \<in> folders g. \<exists>b \<in> folders h. nested_or_identical a b)"

text \<open>Records for the examples: only the fields that matter vary.\<close>

definition mk_file :: "string \<Rightarrow> string \<Rightarrow> int \<Rightarrow> DuplicateFile" where
  "mk_file gid fld sz =
     \<lparr>group_id = gid, folder = fld, path = ''/volume1/'' @ fld @ ''/f'' @ gid, size_bytes = sz\<rparr>"

text \<open>The input of \<open>test_analyze_folder_groups_partial_overlap\<close>.\<close>

definition overlap_files :: "DuplicateFile list" where
  "overlap_files =
     [mk_file ''1'' ''photos'' 1000, mk_file ''1'' ''backup'' 1000,
      mk_file ''2'' ''photos'' 2000, mk_file ''2'' ''documents'' 2000]"

definition overlap_groups :: "FolderGroup list" where
  "overlap_groups =
     [\<lparr>folders = {''photos'', ''documents''},
       shared_files = [(''2'', [mk_file ''2'' ''photos'' 2000, mk_file ''2'' ''documents'' 2000])],
       total_shared_size = 2000, wasted_space = 2000\<rparr>,
      \<lparr>folders = {''photos'', ''backup''},
       shared_files = [(''1'', [mk_file ''1'' ''photos'' 1000, mk_file ''1'' ''backup'' 1000])],
       total_shared_size = 1000, wasted_space = 1000\<rparr>]"

definition overlap_merged :: "FolderGroup" where
  "overlap_merged =
     \<lparr>folders = {''photos'', ''documents'', ''backup''},
      shared_files = [(''2'', [mk_file ''2'' ''photos'' 2000, mk_file ''2'' ''documents'' 2000]),
                      (''1'', [mk_file ''1'' ''photos'' 1000, mk_file ''1'' ''backup'' 1000])],
      total_shared_size = 3000, wasted_space = 3000\<rparr>"

text \<open>Two groups with unrelated folders, the smaller one first.\<close>

definition unrelated_groups :: "FolderGroup list" where
  "unrelated_groups =
     [\<lparr>folders = {''a'', ''b''}, shared_files = [], total_shared_size = 1000, wasted_space = 1000\<rparr>,
      \<lparr>folders = {''ab'', ''c/d''}, shared_files = [], total_shared_size = 2000, wasted_space = 2000\<rparr>]"

text \<open>
  A chain of three groups, given in an order in which the first two are unrelated: they
  are linked only through the third.
\<close>

definition chain_groups :: "FolderGroup list" where
  "chain_groups =
     [\<lparr>folders = {''A'', ''A/x''}, shared_files = [], total_shared_size = 10, wasted_space = 1\<rparr>,
      \<lparr>folders = {''B'', ''C''}, shared_files = [], total_shared_size = 30, wasted_space = 3\<rparr>,
      \<lparr>folders = {''A/x'', ''B''}, shared_files = [], total_shared_size = 20, wasted_space = 2\<rparr>]"

definition chain_merged :: "FolderGroup" where
  "chain_merged =
     \<lparr>folders = {''A'', ''A/x'', ''B'', ''C''}, shared_files = [],
      total_shared_size = 60, wasted_space = 6\<rparr>"

text \<open>
  The invariant of the report: all records sharing a \<open>group_id\<close> have equal size.
\<close>

definition equal_size_per_group :: "DuplicateFile list \<Rightarrow> bool" where
  "equal_size_per_group files \<longleftrightarrow>
     (\<forall>a \<in> set files. \<forall>b \<in> set files. group_id a = group_id b \<longrightarrow> size_bytes a = size_bytes b)"

text \<open>
  \<open>sz\<close> gives the per-copy size of every cluster of \<open>files\<close>: each record has the size
  that \<open>sz\<close> assigns to its \<open>group_id\<close>. Such a function exists exactly under the invariant.
\<close>

definition per_copy_size :: "(string \<Rightarrow> int) \<Rightarrow> DuplicateFile list \<Rightarrow> bool" where
  "per_copy_size sz files \<longleftrightarrow> (\<forall>f \<in> set files. size_bytes f = sz (group_id f))"

text \<open>The distinct cluster IDs of a group and the records it holds for one of them.\<close>

definition cluster_ids :: "FolderGroup \<Rightarrow> string list" where
  "cluster_ids g = map fst (shared_files g)"

definition records_of :: "FolderGroup \<Rightarrow> string \<Rightarrow> DuplicateFile list" where
  "records_of g gid = (case map_of (shared_files g) gid of None \<Rightarrow> [] | Some fs \<Rightarrow> fs)"

text \<open>
  The metrics of a group as the specification defines them from \<open>sharedFiles\<close>: each
  distinct cluster ID counts once, with its per-copy size for \<open>totalSharedSize\<close> and with
  that size times the number of its records in the group minus one for \<open>wastedSpace\<close>.
\<close>

definition metrics_consistent :: "(string \<Rightarrow> int) \<Rightarrow> FolderGroup \<Rightarrow> bool" where
  "metrics_consistent sz g \<longleftrightarrow>
     distinct (cluster_ids g) \<and>
     total_shared_size g = (\<Sum>gid \<in> set (cluster_ids g). sz gid) \<and>
     wasted_space g =
       (\<Sum>gid \<in> set (cluster_ids g). sz gid * (int (length (records_of g gid)) - 1))"

text \<open>
  Two clusters over the folders \<open>a\<close> and \<open>b\<close>: three copies of 500 bytes and two copies of
  300 bytes.
\<close>

definition copies_files :: "DuplicateFile list" where
  "copies_files =
     [mk_file ''7'' ''a'' 500, mk_file ''8'' ''b'' 300, mk_file ''7'' ''b'' 500,
      (mk_file ''7'' ''a'' 500)\<lparr>path := ''/volume1/a/copy''\<rparr>, mk_file ''8'' ''a'' 300]"

definition copies_sz :: "string \<Rightarrow> int" where
  "copies_sz gid = (if gid = ''7'' then 500 else 300)"

definition copies_group :: "FolderGroup" where
  "copies_group =
     \<lparr>folders = {''a'', ''b''},
      shared_files =
        [(''7'', [mk_file ''7'' ''a'' 500, mk_file ''7'' ''b'' 500,
                  (mk_file ''7'' ''a'' 500)\<lparr>path := ''/volume1/a/copy''\<rparr>]),
         (''8'', [mk_file ''8'' ''b'' 300, mk_file ''8'' ''a'' 300])],
      total_shared_size = 800, wasted_space = 1300\<rparr>"

text \<open>
  The input of the partial-overlap test with a third cluster mixed in, two copies that
  both lie in the folder \<open>photos\<close>.
\<close>

definition lonely_files :: "DuplicateFile list" where
  "lonely_files =
     [mk_file ''1'' ''photos'' 1000, mk_file ''3'' ''photos'' 700,
      mk_file ''1'' ''backup'' 1000, mk_file ''2'' ''photos'' 2000,
      (mk_file ''3'' ''photos'' 700)\<lparr>path := ''/volume1/photos/other''\<rparr>,
      mk_file ''2'' ''documents'' 2000]"

text \<open>The input of \<open>test_analyze_folder_groups_threshold\<close>, with the two clusters interleaved.\<close>

definition threshold_files :: "DuplicateFile list" where
  "threshold_files =
     [mk_file ''1'' ''photos'' 1000, mk_file ''2'' ''photos'' 2000,
      mk_file ''2'' ''backup'' 2000, mk_file ''1'' ''backup'' 1000]"

definition threshold_group :: "FolderGroup" where
  "threshold_group =
     \<lparr>folders = {''photos'', ''backup''},
      shared_files =
        [(''1'', [mk_file ''1'' ''photos'' 1000, mk_file ''1'' ''backup'' 1000]),
         (''2'', [mk_file ''2'' ''photos'' 2000, mk_file ''2'' ''backup'' 2000])],
      total_shared_size = 3000, wasted_space = 3000\<rparr>"

text \<open>
  What the merge loop keeps of a group built from \<open>files\<close>: every entry of its
  \<open>shared_files\<close> is a whole cluster of the input, and the two stored metrics are what
  lines 91-100 compute from \<open>shared_files\<close>. Across a list of groups no cluster ID occurs
  twice.
\<close>

definition well_formed_group :: "DuplicateFile list \<Rightarrow> FolderGroup \<Rightarrow> bool" where
  "well_formed_group files g \<longleftrightarrow>
     set (shared_files g) \<subseteq> set (groups_by_id files) \<and>
     total_shared_size g = (\<Sum>item \<leftarrow> shared_files g. size_bytes (hd (snd item))) \<and>
     wasted_space g =
       (\<Sum>item \<leftarrow> shared_files g. size_bytes (hd (snd item)) * (int (length (snd item)) - 1))"

definition merge_invariant :: "DuplicateFile list \<Rightarrow> FolderGroup list \<Rightarrow> bool" where
  "merge_invariant files gs \<longleftrightarrow>
     distinct (concat (map cluster_ids gs)) \<and> (\<forall>g \<in> set gs. well_formed_group files g)"

text \<open>
  Recomputing the metrics of a group from its \<open>shared_files\<close> with the loops of
  \<open>analyze_folder_groups\<close> gives the stored values.
\<close>

definition recomputes :: "FolderGroup \<Rightarrow> bool" where
  "recomputes g \<longleftrightarrow>
     total_loop 0 (map snd (shared_files g)) = Inr (total_shared_size g) \<and>
     wasted_loop 0 (map snd (shared_files g)) = Inr (wasted_space g)"

text \<open>
  Three copies of 500 bytes in the folders \<open>a\<close> and \<open>b\<close>, two copies of 300 bytes in the
  folders \<open>a\<close> and \<open>c\<close>: two groups, which share the folder \<open>a\<close>.
\<close>

definition spread_files :: "DuplicateFile list" where
  "spread_files =
     [mk_file ''7'' ''a'' 500, mk_file ''8'' ''c'' 300, mk_file ''7'' ''b'' 500,
      (mk_file ''7'' ''a'' 500)\<lparr>path := ''/volume1/a/copy''\<rparr>, mk_file ''8'' ''a'' 300]"

definition spread_groups :: "FolderGroup list" where
  "spread_groups =
     [\<lparr>folders = {''a'', ''b''},
       shared_files =
        [(''7'', [mk_file ''7'' ''a'' 500, mk_file ''7'' ''b'' 500,
                  (mk_file ''7'' ''a'' 500)\<lparr>path := ''/volume1/a/copy''\<rparr>])],
       total_shared_size = 500, wasted_space = 1000\<rparr>,
      \<lparr>folders = {''c'', ''a''},
       shared_files = [(''8'', [mk_file ''8'' ''c'' 300, mk_file ''8'' ''a'' 300])],
       total_shared_size = 300, wasted_space = 300\<rparr>]"

definition spread_merged :: "FolderGroup" where
  "spread_merged =
     \<lparr>folders = {''a'', ''b'', ''c''},
      shared_files =
        [(''7'', [mk_file ''7'' ''a'' 500, mk_file ''7'' ''b'' 500,
                  (mk_file ''7'' ''a'' 500)\<lparr>path := ''/volume1/a/copy''\<rparr>]),
         (''8'', [mk_file ''8'' ''c'' 300, mk_file ''8'' ''a'' 300])],
      total_shared_size = 800, wasted_space = 1300\<rparr>"

text \<open>
  A group up to the order of its clusters and of the records within a cluster: its folder
  set, its two metrics, and for every cluster ID the multiset of records held for it. Two
  results are the same collection of groups when they agree as multisets of such views.
\<close>

definition cluster_view :: "string \<times> DuplicateFile list \<Rightarrow> string \<times> DuplicateFile multiset" where
  "cluster_view item = (fst item, mset (snd item))"

definition group_view ::
  "FolderGroup \<Rightarrow> string set \<times> int \<times> int \<times> (string \<times> DuplicateFile multiset) multiset" where
  "group_view g =
     (folders g, total_shared_size g, wasted_space g,
      image_mset cluster_view (mset (shared_files g)))"

definition same_groups :: "FolderGroup list \<Rightarrow> FolderGroup list \<Rightarrow> bool" where
  "same_groups gs gs' \<longleftrightarrow> image_mset group_view (mset gs) = image_mset group_view (mset gs')"

text \<open>Two copies whose sizes differ, against the invariant of the report.\<close>

definition unequal_files :: "DuplicateFile list" where
  "unequal_files = [mk_file ''1'' ''a'' 1000, mk_file ''1'' ''b'' 2000]"

definition unequal_first :: "FolderGroup" where
  "unequal_first =
     \<lparr>folders = {''a'', ''b''},
      shared_files = [(''1'', [mk_file ''1'' ''a'' 1000, mk_file ''1'' ''b'' 2000])],
      total_shared_size = 1000, wasted_space = 1000\<rparr>"

definition unequal_second :: "FolderGroup" where
  "unequal_second =
     \<lparr>folders = {''b'', ''a''},
      shared_files = [(''1'', [mk_file ''1'' ''b'' 2000, mk_file ''1'' ''a'' 1000])],
      total_shared_size = 2000, wasted_space = 2000\<rparr>"

text \<open>The group that the reversed list \<open>copies_files\<close> gives.\<close>

definition copies_group_rev :: "FolderGroup" where
  "copies_group_rev =
     \<lparr>folders = {''a'', ''b''},
      shared_files =
        [(''8'', [mk_file ''8'' ''a'' 300, mk_file ''8'' ''b'' 300]),
         (''7'', [(mk_file ''7'' ''a'' 500)\<lparr>path := ''/volume1/a/copy''\<rparr>,
                  mk_file ''7'' ''b'' 500, mk_file ''7'' ''a'' 500])],
      total_shared_size = 800, wasted_space = 1300\<rparr>"

section \<open>The merge loop\<close>

lemma set_index_pairs: "set (index_pairs n) = {(i, j). i < j \<and> j < n}"
  by (force simp: index_pairs_def)

lemma first_mergeable_None:
  "first_mergeable gs = None \<longleftrightarrow> (\<forall>i j. i < j \<and> j < length gs \<longrightarrow> \<not> should_merge (gs ! i) (gs ! j))"
  by (auto simp: first_mergeable_def find_None_iff set_index_pairs)

lemma first_mergeable_Some:
  assumes "first_mergeable gs = Some (i, j)"
  shows "i < j \<and> j < length gs \<and> should_merge (gs ! i) (gs ! j)"
proof -
  from assms have "(i, j) \<in> set (index_pairs (length gs)) \<and> should_merge (gs ! i) (gs ! j)"
    unfolding first_mergeable_def find_Some_iff by (metis case_prod_conv nth_mem)
  then show ?thesis by (simp add: set_index_pairs)
qed

lemma merge_at_split:
  assumes "i < j" "j < length gs"
  shows "\<exists>a b c. gs = a @ gs ! i # b @ gs ! j # c \<and>
           merge_at i j gs = a @ merge_groups (gs ! i) (gs ! j) # b @ c"
proof -
  define a where "a = take i gs"
  define r where "r = drop (Suc i) gs"
  have gs1: "gs = a @ gs ! i # r" using assms by (simp add: a_def r_def id_take_nth_drop)
  have la: "length a = i" using assms by (simp add: a_def)
  define k where "k = j - Suc i"
  have kr: "k < length r" using assms by (simp add: k_def r_def)
  have rj: "r ! k = gs ! j" using assms by (simp add: k_def r_def)
  define b where "b = take k r"
  define c where "c = drop (Suc k) r"
  have r1: "r = b @ gs ! j # c" using kr rj by (metis b_def c_def id_take_nth_drop)
  have lb: "length b = k" using kr by (simp add: b_def)
  have j_eq: "j = length a + Suc (length b)" using assms la lb by (simp add: k_def)
  have gs2: "gs = a @ gs ! i # b @ gs ! j # c" using gs1 r1 by simp
  have "merge_at i j (a @ x # b @ y # c) = a @ merge_groups x y # b @ c" for x y
    unfolding merge_at_def pop_def using la lb j_eq
    by (simp add: nth_append list_update_append)
  then show ?thesis using gs2 by metis
qed

lemma length_merge_at: "i < j \<Longrightarrow> j < length gs \<Longrightarrow> length (merge_at i j gs) < length gs"
  by (simp add: merge_at_def pop_def)

lemma merge_loop_rule:
  assumes "P gs"
    and step: "\<And>gs i j. P gs \<Longrightarrow> first_mergeable gs = Some (i, j) \<Longrightarrow> P (merge_at i j gs)"
  shows "\<exists>r. merge_loop gs = Some r \<and> P r \<and> first_mergeable r = None"
  using assms(1)
proof (induction "length gs" arbitrary: gs rule: less_induct)
  case less
  show ?case
  proof (cases "first_mergeable gs")
    case None
    then have "merge_loop gs = Some gs" by (subst merge_loop.simps) simp
    with None less.prems show ?thesis by simp
  next
    case (Some p)
    obtain i j where p: "p = (i, j)" by (cases p)
    from Some p have fm: "first_mergeable gs = Some (i, j)" by simp
    from first_mergeable_Some[OF fm] have "length (merge_at i j gs) < length gs"
      by (simp add: length_merge_at)
    moreover have "P (merge_at i j gs)" using step[OF less.prems fm] .
    ultimately obtain r where r: "merge_loop (merge_at i j gs) = Some r" "P r" "first_mergeable r = None"
      using less.hyps by blast
    have "merge_loop gs = merge_loop (merge_at i j gs)"
      using fm by (subst merge_loop.simps) simp
    with r show ?thesis by simp
  qed
qed

lemma should_merge_sym: "should_merge g h \<longleftrightarrow> should_merge h g"
  by (auto simp: should_merge_def is_nested_def)

lemma sorted_wrt_insort_key_sym:
  assumes "\<And>x y. R x y \<Longrightarrow> R y x"
  shows "sorted_wrt R (insort_key f x xs) \<longleftrightarrow> (\<forall>y\<in>set xs. R x y) \<and> sorted_wrt R xs"
  using assms by (induction xs) (auto simp: set_insort_key)

lemma sorted_wrt_sort_key_sym:
  assumes "\<And>x y. R x y \<Longrightarrow> R y x"
  shows "sorted_wrt R (sort_key f xs) \<longleftrightarrow> sorted_wrt R xs"
proof (induction xs)
  case Nil show ?case by simp
next
  case (Cons x xs)
  have "sort_key f (x # xs) = insort_key f x (sort_key f xs)" by (simp add: sort_key_def)
  then show ?case using Cons sorted_wrt_insort_key_sym[of R f x "sort_key f xs", OF assms] by simp
qed

lemma first_mergeable_None_sorted_wrt:
  "first_mergeable gs = None \<longleftrightarrow> sorted_wrt (\<lambda>g h. \<not> should_merge g h) gs"
  by (auto simp: first_mergeable_None sorted_wrt_iff_nth_less)

lemma first_mergeable_sort:
  "first_mergeable (sort_by_size_desc gs) = None \<longleftrightarrow> first_mergeable gs = None"
  unfolding first_mergeable_None_sorted_wrt sort_by_size_desc_def
  by (rule sorted_wrt_sort_key_sym) (simp add: should_merge_sym)

lemma sort_by_size_desc_idem: "sort_by_size_desc (sort_by_size_desc gs) = sort_by_size_desc gs"
  unfolding sort_by_size_desc_def by (rule sort_key_id_if_sorted) simp

lemma set_sort_by_size_desc: "set (sort_by_size_desc gs) = set gs"
  by (simp add: sort_by_size_desc_def)

lemma length_sort_by_size_desc: "length (sort_by_size_desc gs) = length gs"
  by (simp add: sort_by_size_desc_def)

lemma sort_by_size_desc_Nil: "sort_by_size_desc gs = [] \<longleftrightarrow> gs = []"
  by (metis length_sort_by_size_desc length_0_conv)

lemma merge_loop_terminates: "\<exists>r. merge_loop gs = Some r \<and> first_mergeable r = None"
  using merge_loop_rule[of "\<lambda>_. True" gs] by simp

lemma merge_loop_fixed: "first_mergeable gs = None \<Longrightarrow> merge_loop gs = Some gs"
  by (subst merge_loop.simps) simp

lemma compact_total: "\<exists>r. compact_nested_folders gs = Some r"
  using merge_loop_terminates[of gs] by (auto simp: compact_nested_folders_def)

lemma set_merge_at:
  assumes "i < j" "j < length gs"
  shows "set (merge_at i j gs) \<subseteq> insert (merge_groups (gs ! i) (gs ! j)) (set gs)"
    and "merge_groups (gs ! i) (gs ! j) \<in> set (merge_at i j gs)"
    and "set gs \<subseteq> {gs ! i, gs ! j} \<union> set (merge_at i j gs)"
proof -
  obtain a b c where s: "gs = a @ gs ! i # b @ gs ! j # c"
    "merge_at i j gs = a @ merge_groups (gs ! i) (gs ! j) # b @ c"
    using merge_at_split[OF assms] by blast
  have g: "set gs = set a \<union> {gs ! i} \<union> set b \<union> {gs ! j} \<union> set c"
    by (subst s(1)) auto
  show "set (merge_at i j gs) \<subseteq> insert (merge_groups (gs ! i) (gs ! j)) (set gs)"
    unfolding s(2) g by auto
  show "merge_groups (gs ! i) (gs ! j) \<in> set (merge_at i j gs)"
    unfolding s(2) by simp
  show "set gs \<subseteq> {gs ! i, gs ! j} \<union> set (merge_at i j gs)"
    unfolding s(2) g by auto
qed

lemma folders_merge_groups: "folders (merge_groups g h) = folders g \<union> folders h"
  by (simp add: merge_groups_def)

lemma covers_refl: "covers gs gs"
  by (auto simp: covers_def)

lemma covers_merge_at:
  assumes c: "covers gs0 gs" and fm: "first_mergeable gs = Some (i, j)"
  shows "covers gs0 (merge_at i j gs)"
proof -
  from first_mergeable_Some[OF fm] have ij: "i < j" "j < length gs" by auto
  let ?m = "merge_groups (gs ! i) (gs ! j)"
  let ?gs' = "merge_at i j gs"
  note sm = set_merge_at[OF ij]
  have gi: "gs ! i \<in> set gs" and gj: "gs ! j \<in> set gs" using ij by auto
  have 1: "\<exists>g \<in> set ?gs'. folders g0 \<subseteq> folders g" if "g0 \<in> set gs0" for g0
  proof -
    from c that obtain g where g: "g \<in> set gs" "folders g0 \<subseteq> folders g"
      by (auto simp: covers_def)
    show ?thesis
    proof (cases "g \<in> set ?gs'")
      case True with g show ?thesis by blast
    next
      case False
      with g sm(3) have "g = gs ! i \<or> g = gs ! j" by blast
      then have "folders g \<subseteq> folders ?m" by (auto simp: folders_merge_groups)
      with g sm(2) show ?thesis by blast
    qed
  qed
  have 2: "\<exists>g0 \<in> set gs0. folders g0 \<subseteq> folders g" if "g \<in> set ?gs'" for g
  proof (cases "g \<in> set gs")
    case True with c show ?thesis by (auto simp: covers_def)
  next
    case False
    with that sm(1) have "g = ?m" by blast
    moreover from c gi obtain g0 where "g0 \<in> set gs0" "folders g0 \<subseteq> folders (gs ! i)"
      by (auto simp: covers_def)
    ultimately show ?thesis by (auto simp: folders_merge_groups)
  qed
  have "(\<Union>g \<in> set ?gs'. folders g) = (\<Union>g \<in> set gs. folders g)"
  proof
    show "(\<Union>g \<in> set ?gs'. folders g) \<subseteq> (\<Union>g \<in> set gs. folders g)"
    proof
      fix x assume "x \<in> (\<Union>g \<in> set ?gs'. folders g)"
      then obtain g where g: "g \<in> set ?gs'" "x \<in> folders g" by blast
      show "x \<in> (\<Union>g \<in> set gs. folders g)"
      proof (cases "g \<in> set gs")
        case True with g show ?thesis by blast
      next
        case False
        with g sm(1) have "g = ?m" by blast
        with g have "x \<in> folders (gs ! i) \<or> x \<in> folders (gs ! j)"
          by (auto simp: folders_merge_groups)
        with gi gj show ?thesis by blast
      qed
    qed
    show "(\<Union>g \<in> set gs. folders g) \<subseteq> (\<Union>g \<in> set ?gs'. folders g)"
    proof
      fix x assume "x \<in> (\<Union>g \<in> set gs. folders g)"
      then obtain g where g: "g \<in> set gs" "x \<in> folders g" by blast
      show "x \<in> (\<Union>g \<in> set ?gs'. folders g)"
      proof (cases "g \<in> set ?gs'")
        case True with g show ?thesis by blast
      next
        case False
        with g sm(3) have "g = gs ! i \<or> g = gs ! j" by blast
        with g have "x \<in> folders ?m" by (auto simp: folders_merge_groups)
        with sm(2) show ?thesis by blast
      qed
    qed
  qed
  with 1 2 c show ?thesis by (simp add: covers_def)
qed

lemma compact_result:
  assumes "P gs"
    and step: "\<And>gs i j. P gs \<Longrightarrow> first_mergeable gs = Some (i, j) \<Longrightarrow> P (merge_at i j gs)"
  shows "\<exists>r. compact_nested_folders gs = Some (sort_by_size_desc r) \<and> P r \<and>
             first_mergeable r = None"
proof (cases "gs = []")
  case True
  have "first_mergeable [] = None" by (simp add: first_mergeable_None)
  with True assms(1) show ?thesis
    by (auto simp: compact_nested_folders_def sort_by_size_desc_def intro!: exI[of _ "[]"])
next
  case False
  from merge_loop_rule[of P gs, OF assms] obtain r where
    "merge_loop gs = Some r" "P r" "first_mergeable r = None" by blast
  with False show ?thesis by (auto simp: compact_nested_folders_def)
qed

section \<open>Dictionary updates\<close>

lemma dd_update_keys:
  "map fst (dd_update k d f xs) = (if k \<in> fst ` set xs then map fst xs else map fst xs @ [k])"
proof (induction xs)
  case Nil show ?case by simp
next
  case (Cons p xs)
  obtain k' v where p: "p = (k', v)" by (cases p)
  show ?case using Cons by (cases "k' = k") (simp_all add: p)
qed

lemma dd_update_distinct:
  "distinct (map fst xs) \<Longrightarrow> distinct (map fst (dd_update k d f xs))"
  by (simp add: dd_update_keys)

lemma dd_update_map_of:
  "map_of (dd_update k d f xs) =
     (map_of xs)(k \<mapsto> f (case map_of xs k of None \<Rightarrow> d | Some v \<Rightarrow> v))"
  by (induction xs) (auto simp: fun_eq_iff)

lemma dd_update_absent: "k \<notin> fst ` set xs \<Longrightarrow> dd_update k d f xs = xs @ [(k, f d)]"
  by (induction xs) auto

lemma dd_update_comp: "dd_update k d g (dd_update k d f xs) = dd_update k d (g \<circ> f) xs"
  by (induction xs) auto

lemma dd_update_filter:
  "filter (\<lambda>p. fst p \<noteq> g) (dd_update k d f xs) =
     (if k = g then filter (\<lambda>p. fst p \<noteq> g) xs else dd_update k d f (filter (\<lambda>p. fst p \<noteq> g) xs))"
  by (induction xs) auto

lemma fold_dd_update:
  "xs \<noteq> [] \<Longrightarrow> fold (\<lambda>x. dd_update k d (h x)) xs rel = dd_update k d (fold h xs) rel"
proof (induction xs arbitrary: rel)
  case Nil then show ?case by simp
next
  case (Cons x xs)
  show ?case
  proof (cases "xs = []")
    case True then show ?thesis by simp
  next
    case False
    from Cons.IH[OF False] show ?thesis by (simp add: dd_update_comp comp_def)
  qed
qed

lemma fold_snoc_each: "fold (\<lambda>x vs. vs @ [x]) xs vs = vs @ xs"
  by (induction xs arbitrary: vs) auto

lemma fold_dd_append:
  "xs \<noteq> [] \<Longrightarrow> fold (dd_append k) xs d = dd_update k [] (\<lambda>vs. vs @ xs) d"
proof -
  assume ne: "xs \<noteq> []"
  have "fold (dd_append k) xs d = fold (\<lambda>x. dd_update k [] (\<lambda>vs. vs @ [x])) xs d"
    by (simp add: dd_append_def[abs_def])
  also have "\<dots> = dd_update k [] (fold (\<lambda>x vs. vs @ [x]) xs) d"
    by (rule fold_dd_update[OF ne])
  also have "fold (\<lambda>x vs. vs @ [x]) xs = (\<lambda>vs. vs @ xs)"
    by (simp add: fun_eq_iff fold_snoc_each)
  finally show ?thesis .
qed

section \<open>Grouping by ID\<close>

lemma groups_by_id_snoc:
  "groups_by_id (files @ [file]) = dd_append (group_id file) file (groups_by_id files)"
  by (simp add: groups_by_id_def)

lemma groups_by_id_distinct: "distinct (map fst (groups_by_id files))"
  by (induction files rule: rev_induct)
     (simp_all add: groups_by_id_snoc dd_append_def dd_update_distinct, simp add: groups_by_id_def)

lemma groups_by_id_map_of:
  "map_of (groups_by_id files) g =
     (if g \<in> group_id ` set files then Some (filter (\<lambda>f. group_id f = g) files) else None)"
proof (induction files rule: rev_induct)
  case Nil show ?case by (simp add: groups_by_id_def)
next
  case (snoc x xs)
  show ?case
  proof (cases "group_id x \<in> group_id ` set xs")
    case True
    with snoc show ?thesis
      by (auto simp: groups_by_id_snoc dd_append_def dd_update_map_of)
  next
    case False
    then have "\<forall>f \<in> set xs. group_id f \<noteq> group_id x" by (metis image_eqI)
    then have "filter (\<lambda>f. group_id f = group_id x) xs = []"
      by (simp add: filter_empty_conv)
    with False snoc show ?thesis
      by (auto simp: groups_by_id_snoc dd_append_def dd_update_map_of)
  qed
qed

lemma groups_by_id_set:
  "(g, fs) \<in> set (groups_by_id files) \<longleftrightarrow>
     g \<in> group_id ` set files \<and> fs = filter (\<lambda>f. group_id f = g) files"
proof -
  have "(g, fs) \<in> set (groups_by_id files) \<longleftrightarrow> map_of (groups_by_id files) g = Some fs"
    using groups_by_id_distinct by simp
  then show ?thesis by (auto simp: groups_by_id_map_of)
qed

lemma groups_by_id_nonempty: "(g, fs) \<in> set (groups_by_id files) \<Longrightarrow> fs \<noteq> []"
  by (auto simp: groups_by_id_set filter_empty_conv)

lemma groups_by_id_filter:
  "groups_by_id (filter (\<lambda>f. group_id f \<noteq> g) files) =
     filter (\<lambda>p. fst p \<noteq> g) (groups_by_id files)"
proof (induction files rule: rev_induct)
  case Nil show ?case by (simp add: groups_by_id_def)
next
  case (snoc x xs)
  then show ?case
    by (simp add: groups_by_id_snoc dd_append_def dd_update_filter)
qed

section \<open>Folder relationships\<close>

lemma add_cluster_eq:
  assumes "group_files \<noteq> []"
  shows "add_cluster K gid group_files rel =
           dd_update K [] (dd_update gid [] (\<lambda>vs. vs @ group_files)) rel"
proof -
  have "add_cluster K gid group_files rel = dd_update K [] (fold (dd_append gid) group_files) rel"
    unfolding add_cluster_def by (rule fold_dd_update[OF assms])
  also have "fold (dd_append gid) group_files = dd_update gid [] (\<lambda>vs. vs @ group_files)"
    by (rule ext) (rule fold_dd_append[OF assms])
  finally show ?thesis .
qed

lemma relate_cluster_eq:
  "relate_cluster (gid, group_files) rel =
     (if card (folder ` set group_files) > 1
      then dd_update (folder ` set group_files) [] (dd_update gid [] (\<lambda>vs. vs @ group_files)) rel
      else rel)"
proof (cases "group_files = []")
  case True then show ?thesis by simp
next
  case False then show ?thesis by (simp add: add_cluster_eq)
qed

declare relate_cluster.simps [simp del]

lemma folder_relationships_snoc:
  "folder_relationships (by_id @ [item]) = relate_cluster item (folder_relationships by_id)"
  by (simp add: folder_relationships_def)

lemma clusters_of_snoc:
  "clusters_of K (by_id @ [item]) =
     clusters_of K by_id @ (if folder ` set (snd item) = K then [item] else [])"
  by (simp add: clusters_of_def)

lemma clusters_of_keys: "fst ` set (clusters_of K by_id) \<subseteq> fst ` set by_id"
  by (auto simp: clusters_of_def)

lemma folder_relationships_char:
  assumes "distinct (map fst by_id)"
  shows "distinct (map fst (folder_relationships by_id)) \<and>
         (\<forall>K. map_of (folder_relationships by_id) K =
            (if card K > 1 \<and> clusters_of K by_id \<noteq> [] then Some (clusters_of K by_id) else None))"
  using assms
proof (induction by_id rule: rev_induct)
  case Nil
  show ?case by (simp add: folder_relationships_def clusters_of_def)
next
  case (snoc item by_id)
  obtain gid gfs where item: "item = (gid, gfs)" by (cases item)
  from snoc.prems have d: "distinct (map fst by_id)" and fresh: "gid \<notin> fst ` set by_id"
    by (auto simp: item)
  note IH = snoc.IH[OF d]
  let ?rel = "folder_relationships by_id"
  let ?K0 = "folder ` set gfs"
  show ?case
  proof (cases "card ?K0 > 1")
    case False
    then have "folder_relationships (by_id @ [item]) = ?rel"
      by (simp add: folder_relationships_snoc item relate_cluster_eq)
    moreover have "clusters_of K (by_id @ [item]) = clusters_of K by_id" if "card K > 1" for K
      using that False by (auto simp: clusters_of_snoc item)
    ultimately show ?thesis using IH by auto
  next
    case True
    let ?upd = "dd_update gid [] (\<lambda>vs. vs @ gfs)"
    have rel': "folder_relationships (by_id @ [item]) = dd_update ?K0 [] ?upd ?rel"
      using True by (simp add: folder_relationships_snoc item relate_cluster_eq)
    have fresh': "gid \<notin> fst ` set (clusters_of ?K0 by_id)"
      using fresh clusters_of_keys by blast
    have new: "?upd (case map_of ?rel ?K0 of None \<Rightarrow> [] | Some v \<Rightarrow> v) =
                 clusters_of ?K0 (by_id @ [item])"
    proof (cases "clusters_of ?K0 by_id = []")
      case True
      with IH show ?thesis by (simp add: clusters_of_snoc item)
    next
      case False
      with IH True have "map_of ?rel ?K0 = Some (clusters_of ?K0 by_id)" by simp
      then show ?thesis using fresh' by (simp add: dd_update_absent clusters_of_snoc item)
    qed
    have "map_of (folder_relationships (by_id @ [item])) K =
            (if card K > 1 \<and> clusters_of K (by_id @ [item]) \<noteq> []
             then Some (clusters_of K (by_id @ [item])) else None)" for K
    proof (cases "K = ?K0")
      case True
      have "clusters_of ?K0 (by_id @ [item]) \<noteq> []" by (simp add: clusters_of_snoc item)
      with True \<open>card ?K0 > 1\<close> show ?thesis
        unfolding rel' dd_update_map_of using new by simp
    next
      case False
      then have "clusters_of K (by_id @ [item]) = clusters_of K by_id"
        by (auto simp: clusters_of_snoc item)
      with False IH show ?thesis unfolding rel' dd_update_map_of by simp
    qed
    moreover have "distinct (map fst (folder_relationships (by_id @ [item])))"
      unfolding rel' using IH by (simp add: dd_update_distinct)
    ultimately show ?thesis by blast
  qed
qed

section \<open>The result of \<open>analyze_folder_groups\<close> in closed form\<close>

lemma folder_relationships_set:
  assumes "distinct (map fst by_id)"
  shows "(K, sf) \<in> set (folder_relationships by_id) \<longleftrightarrow>
           card K > 1 \<and> sf = clusters_of K by_id \<and> sf \<noteq> []"
proof -
  from folder_relationships_char[OF assms]
  have d: "distinct (map fst (folder_relationships by_id))"
    and m: "\<And>K. map_of (folder_relationships by_id) K =
            (if card K > 1 \<and> clusters_of K by_id \<noteq> [] then Some (clusters_of K by_id) else None)"
    by blast+
  have "(K, sf) \<in> set (folder_relationships by_id) \<longleftrightarrow>
          map_of (folder_relationships by_id) K = Some sf"
    using d by simp
  then show ?thesis by (auto simp: m)
qed

lemma total_loop_eq:
  "\<forall>fs \<in> set xs. fs \<noteq> [] \<Longrightarrow>
     total_loop acc xs = Inr (acc + (\<Sum>fs \<leftarrow> xs. size_bytes (hd fs)))"
proof (induction xs arbitrary: acc)
  case Nil show ?case by simp
next
  case (Cons fs xs)
  then obtain f rest where "fs = f # rest" by (cases fs) auto
  with Cons show ?case by simp
qed

lemma wasted_loop_eq:
  "\<forall>fs \<in> set xs. fs \<noteq> [] \<Longrightarrow>
     wasted_loop acc xs = Inr (acc + (\<Sum>fs \<leftarrow> xs. size_bytes (hd fs) * (int (length fs) - 1)))"
proof (induction xs arbitrary: acc)
  case Nil show ?case by simp
next
  case (Cons fs xs)
  then obtain f rest where "fs = f # rest" by (cases fs) auto
  with Cons show ?case by simp
qed

lemma build_results_eq:
  assumes "\<forall>entry \<in> set rel. \<forall>item \<in> set (snd entry). snd item \<noteq> []"
  shows "build_results m rel acc =
           Inr (acc @ filter (\<lambda>g. m \<le> total_shared_size g) (map group_of_entry rel))"
  using assms
proof (induction rel arbitrary: acc)
  case Nil show ?case by simp
next
  case (Cons entry rel)
  obtain K sf where entry: "entry = (K, sf)" by (cases entry)
  from Cons.prems have ne: "\<forall>fs \<in> set (map snd sf). fs \<noteq> []" by (auto simp: entry)
  from Cons.prems have rest: "\<forall>entry \<in> set rel. \<forall>item \<in> set (snd entry). snd item \<noteq> []" by simp
  show ?case
    unfolding entry build_results.simps total_loop_eq[OF ne] wasted_loop_eq[OF ne]
    by (simp add: Cons.IH[OF rest] group_of_entry_def comp_def)
qed

lemma relationships_nonempty:
  assumes "entry \<in> set (folder_relationships (groups_by_id files))" "item \<in> set (snd entry)"
  shows "snd item \<noteq> []"
proof -
  obtain K sf where entry: "entry = (K, sf)" by (cases entry)
  obtain g fs where item: "item = (g, fs)" by (cases item)
  from assms have "sf = clusters_of K (groups_by_id files)"
    by (simp add: entry folder_relationships_set[OF groups_by_id_distinct])
  with assms have "(g, fs) \<in> set (groups_by_id files)"
    by (simp add: entry item clusters_of_def)
  then show ?thesis by (simp add: item groups_by_id_nonempty)
qed

text \<open>
  No list in \<open>folder_relationships\<close> is empty, so \<open>group_files[0]\<close> never raises:
  \<open>analyze_folder_groups\<close> always returns a list, the sorted groups that pass the threshold.
\<close>

lemma analyze_folder_groups_eq:
  "analyze_folder_groups m files =
     Inr (sort_by_size_desc (filter (\<lambda>g. m \<le> total_shared_size g)
            (map group_of_entry (folder_relationships (groups_by_id files)))))"
proof -
  have "\<forall>entry \<in> set (folder_relationships (groups_by_id files)).
          \<forall>item \<in> set (snd entry). snd item \<noteq> []"
    using relationships_nonempty by blast
  from build_results_eq[OF this] show ?thesis
    by (simp add: analyze_folder_groups_def)
qed

lemma analyze_folder_groups_set:
  "analyze_folder_groups m files = Inr gs \<Longrightarrow>
     g \<in> set gs \<longleftrightarrow>
       (\<exists>K. card K > 1 \<and> clusters_of K (groups_by_id files) \<noteq> [] \<and>
            g = group_of_entry (K, clusters_of K (groups_by_id files)) \<and>
            m \<le> total_shared_size g)"
proof -
  assume a: "analyze_folder_groups m files = Inr gs"
  let ?cl = "groups_by_id files"
  have "g \<in> set gs \<longleftrightarrow>
          (\<exists>entry \<in> set (folder_relationships ?cl). g = group_of_entry entry) \<and>
          m \<le> total_shared_size g"
    using a unfolding analyze_folder_groups_eq by (auto simp: set_sort_by_size_desc)
  also have "(\<exists>entry \<in> set (folder_relationships ?cl). g = group_of_entry entry) \<longleftrightarrow>
          (\<exists>K. card K > 1 \<and> clusters_of K ?cl \<noteq> [] \<and> g = group_of_entry (K, clusters_of K ?cl))"
  proof
    assume "\<exists>entry \<in> set (folder_relationships ?cl). g = group_of_entry entry"
    then obtain K sf where "(K, sf) \<in> set (folder_relationships ?cl)" "g = group_of_entry (K, sf)"
      by force
    then show "\<exists>K. card K > 1 \<and> clusters_of K ?cl \<noteq> [] \<and> g = group_of_entry (K, clusters_of K ?cl)"
      by (auto simp: folder_relationships_set[OF groups_by_id_distinct])
  next
    assume "\<exists>K. card K > 1 \<and> clusters_of K ?cl \<noteq> [] \<and> g = group_of_entry (K, clusters_of K ?cl)"
    then obtain K where K: "card K > 1" "clusters_of K ?cl \<noteq> []"
      "g = group_of_entry (K, clusters_of K ?cl)" by blast
    then have "(K, clusters_of K ?cl) \<in> set (folder_relationships ?cl)"
      by (simp add: folder_relationships_set[OF groups_by_id_distinct])
    with K(3) show "\<exists>entry \<in> set (folder_relationships ?cl). g = group_of_entry entry"
      by blast
  qed
  finally show ?thesis by blast
qed

lemma analyze_folder_groups_distinct:
  assumes "analyze_folder_groups m files = Inr gs"
  shows "distinct (map folders gs)"
proof -
  let ?rel = "folder_relationships (groups_by_id files)"
  have d: "distinct (map fst ?rel)"
    using folder_relationships_char[OF groups_by_id_distinct] by blast
  have eq: "map folders (map group_of_entry ?rel) = map fst ?rel"
    by (simp add: group_of_entry_def)
  have "distinct (map folders (map group_of_entry ?rel))"
    unfolding eq by (rule d)
  then have "distinct (map folders (filter (\<lambda>g. m \<le> total_shared_size g) (map group_of_entry ?rel)))"
    by (simp add: distinct_map_filter)
  moreover have "mset (map folders gs) =
     mset (map folders (filter (\<lambda>g. m \<le> total_shared_size g) (map group_of_entry ?rel)))"
    using assms unfolding analyze_folder_groups_eq sort_by_size_desc_def by auto
  ultimately show ?thesis by (metis mset_eq_imp_distinct_iff)
qed

section \<open>Lemmas for the claims\<close>

lemma descending_sort_by_size_desc: "descending_by_size (sort_by_size_desc gs)"
proof -
  let ?out = "sort_by_size_desc gs"
  have s: "sorted (map (\<lambda>g. - total_shared_size g) ?out)"
    by (simp add: sort_by_size_desc_def)
  have "total_shared_size (?out ! Suc i) \<le> total_shared_size (?out ! i)" if "Suc i < length ?out" for i
  proof -
    from s that have "map (\<lambda>g. - total_shared_size g) ?out ! i \<le> map (\<lambda>g. - total_shared_size g) ?out ! Suc i"
      by (intro sorted_nth_mono) simp_all
    with that show ?thesis by simp
  qed
  then show ?thesis by (auto simp: descending_by_size_def)
qed

lemma total_merge_groups:
  "total_shared_size (merge_groups g h) = total_shared_size g + total_shared_size h"
  by (simp add: merge_groups_def)

lemma threshold_merge_at:
  assumes m: "0 \<le> m" and inv: "\<forall>g \<in> set gs. m \<le> total_shared_size g"
    and fm: "first_mergeable gs = Some (i, j)"
  shows "\<forall>g \<in> set (merge_at i j gs). m \<le> total_shared_size g"
proof
  fix g assume g: "g \<in> set (merge_at i j gs)"
  from first_mergeable_Some[OF fm] have ij: "i < j" "j < length gs" by auto
  then have "gs ! i \<in> set gs" "gs ! j \<in> set gs" by auto
  with inv have "m \<le> total_shared_size (gs ! i)" "m \<le> total_shared_size (gs ! j)" by auto
  with m have "m \<le> total_shared_size (merge_groups (gs ! i) (gs ! j))"
    by (simp add: total_merge_groups)
  with g set_merge_at(1)[OF ij] inv show "m \<le> total_shared_size g" by auto
qed

lemma mergeable_iff_should_merge: "mergeable g h \<longleftrightarrow> should_merge g h"
  by (auto simp: mergeable_def should_merge_def nested_or_identical_def is_nested_def)

lemma no_merge_positions:
  assumes "first_mergeable gs = None" "i < length gs" "j < length gs" "i \<noteq> j"
  shows "\<not> should_merge (gs ! i) (gs ! j)"
proof (cases "i < j")
  case True
  with assms show ?thesis by (simp add: first_mergeable_None)
next
  case False
  with assms have "j < i" by simp
  with assms have "\<not> should_merge (gs ! j) (gs ! i)" by (simp add: first_mergeable_None)
  then show ?thesis by (simp add: should_merge_sym)
qed

lemma shared_folder_same_position:
  assumes "first_mergeable gs = None" "i < length gs" "j < length gs"
    and "x \<in> folders (gs ! i)" "x \<in> folders (gs ! j)"
  shows "i = j"
proof (rule ccontr)
  assume "i \<noteq> j"
  from no_merge_positions[OF assms(1-3) this] assms(4,5) show False
    by (auto simp: should_merge_def)
qed

lemma covers_sort: "covers gs0 (sort_by_size_desc gs) \<longleftrightarrow> covers gs0 gs"
  by (simp add: covers_def set_sort_by_size_desc)

lemma chain_collapses:
  assumes f1: "folders g1 = {A, A @ ''/'' @ x}"
    and f2: "folders g2 = {A @ ''/'' @ x, B}"
    and f3: "folders g3 = {B, C}"
    and gs: "set gs = {g1, g2, g3}"
  shows "\<exists>g. compact_nested_folders gs = Some [g] \<and> folders g = {A, A @ ''/'' @ x, B, C}"
proof -
  from compact_result[of "covers gs" gs, OF covers_refl covers_merge_at]
  obtain r where r: "compact_nested_folders gs = Some (sort_by_size_desc r)"
    "covers gs r" "first_mergeable r = None" by blast
  define out where "out = sort_by_size_desc r"
  have cov: "covers gs out" using r(2) by (simp add: out_def covers_sort)
  have nm: "first_mergeable out = None" using r(3) by (simp add: out_def first_mergeable_sort)
  have pos: "\<exists>p < length out. folders g \<subseteq> folders (out ! p)" if "g \<in> set gs" for g
  proof -
    from cov that obtain h where "h \<in> set out" "folders g \<subseteq> folders h"
      by (auto simp: covers_def)
    then show ?thesis by (metis in_set_conv_nth)
  qed
  from pos[of g1] gs obtain p1 where p1: "p1 < length out" "folders g1 \<subseteq> folders (out ! p1)" by auto
  from pos[of g2] gs obtain p2 where p2: "p2 < length out" "folders g2 \<subseteq> folders (out ! p2)" by auto
  from pos[of g3] gs obtain p3 where p3: "p3 < length out" "folders g3 \<subseteq> folders (out ! p3)" by auto
  have a1: "A @ ''/'' @ x \<in> folders (out ! p1)" and a0: "A \<in> folders (out ! p1)"
    using p1(2) f1 by blast+
  have a2: "A @ ''/'' @ x \<in> folders (out ! p2)" and b2: "B \<in> folders (out ! p2)"
    using p2(2) f2 by blast+
  have b3: "B \<in> folders (out ! p3)" using p3(2) f3 by blast
  have p12: "p1 = p2" by (rule shared_folder_same_position[OF nm p1(1) p2(1) a1 a2])
  have p23: "p2 = p3" by (rule shared_folder_same_position[OF nm p2(1) p3(1) b2 b3])
  have b0: "B \<in> folders (out ! p1)" using b2 p12 by simp
  have only: "q = p1" if q: "q < length out" for q
  proof -
    from q have "out ! q \<in> set out" by simp
    with cov obtain g0 where g0: "g0 \<in> set gs" "folders g0 \<subseteq> folders (out ! q)"
      unfolding covers_def by blast
    from g0(1) gs have "g0 = g1 \<or> g0 = g2 \<or> g0 = g3" by blast
    with g0(2) f1 f2 f3 have "A \<in> folders (out ! q) \<or> B \<in> folders (out ! q)" by blast
    then show ?thesis
      using shared_folder_same_position[OF nm q p1(1)] a0 b0 by blast
  qed
  have len: "length out = 1"
  proof (rule ccontr)
    assume "length out \<noteq> 1"
    with p1(1) have "0 < length out" "1 < length out" by auto
    with only[of 0] only[of 1] show False by simp
  qed
  then obtain g where out: "out = [g]" by (cases out) auto
  from cov have "(\<Union>h \<in> set out. folders h) = (\<Union>h \<in> set gs. folders h)"
    unfolding covers_def by blast
  then have "folders g = folders g1 \<union> (folders g2 \<union> folders g3)"
    unfolding out gs by simp
  then have "folders g = {A, A @ ''/'' @ x, B, C}"
    unfolding f1 f2 f3 by blast
  with r(1) out show ?thesis by (simp add: out_def)
qed

lemma per_copy_size_exists:
  assumes "equal_size_per_group files"
  shows "\<exists>sz. per_copy_size sz files"
proof -
  define sz where "sz = (\<lambda>gid. size_bytes (hd (filter (\<lambda>f. group_id f = gid) files)))"
  have "size_bytes f = sz (group_id f)" if f: "f \<in> set files" for f
  proof -
    let ?fs = "filter (\<lambda>h. group_id h = group_id f) files"
    from f have "?fs \<noteq> []" by (auto simp: filter_empty_conv)
    then have "hd ?fs \<in> set ?fs" by (rule hd_in_set)
    then have "hd ?fs \<in> set files" "group_id (hd ?fs) = group_id f" by auto
    with assms f have "size_bytes (hd ?fs) = size_bytes f"
      unfolding equal_size_per_group_def by blast
    then show ?thesis by (simp add: sz_def)
  qed
  then show ?thesis unfolding per_copy_size_def by blast
qed

lemma clusters_of_set:
  "item \<in> set (clusters_of K (groups_by_id files)) \<longleftrightarrow>
     fst item \<in> group_id ` set files \<and>
     snd item = filter (\<lambda>f. group_id f = fst item) files \<and>
     folder ` set (snd item) = K"
  unfolding clusters_of_def using groups_by_id_set[of "fst item" "snd item" files] by auto

lemma clusters_of_distinct: "distinct (map fst (clusters_of K (groups_by_id files)))"
  unfolding clusters_of_def by (rule distinct_map_filter) (rule groups_by_id_distinct)

lemma cluster_first_size:
  assumes sz: "per_copy_size sz files"
    and item: "item \<in> set (clusters_of K (groups_by_id files))"
  shows "size_bytes (hd (snd item)) = sz (fst item)"
proof -
  from item have s: "snd item = filter (\<lambda>f. group_id f = fst item) files"
    and "fst item \<in> group_id ` set files" by (simp_all add: clusters_of_set)
  then have "snd item \<noteq> []" by (auto simp: filter_empty_conv)
  then have "hd (snd item) \<in> set (snd item)" by (rule hd_in_set)
  with s have "hd (snd item) \<in> set files" "group_id (hd (snd item)) = fst item"
    by (metis (mono_tags, lifting) mem_Collect_eq set_filter)+
  with sz show ?thesis unfolding per_copy_size_def by metis
qed

lemma records_of_item:
  assumes "distinct (map fst (shared_files g))" "item \<in> set (shared_files g)"
  shows "records_of g (fst item) = snd item"
proof -
  from assms have "map_of (shared_files g) (fst item) = Some (snd item)" by simp
  then show ?thesis by (simp add: records_of_def)
qed

lemma sum_list_keys:
  assumes "distinct (map fst xs)"
  shows "(\<Sum>item \<leftarrow> xs. h (fst item)) = (\<Sum>k \<in> set (map fst xs). h k)"
proof -
  have "(\<Sum>item \<leftarrow> xs. h (fst item)) = sum_list (map h (map fst xs))"
    by (simp add: comp_def)
  also have "\<dots> = (\<Sum>k \<in> set (map fst xs). h k)"
    using assms by (rule sum_list_distinct_conv_sum_set)
  finally show ?thesis .
qed

lemma group_of_entry_metrics:
  assumes sz: "per_copy_size sz files"
  shows "metrics_consistent sz (group_of_entry (K, clusters_of K (groups_by_id files)))"
proof -
  let ?sf = "clusters_of K (groups_by_id files)"
  let ?g = "group_of_entry (K, ?sf)"
  have sf: "shared_files ?g = ?sf" by (simp add: group_of_entry_def)
  have d: "distinct (map fst ?sf)" by (rule clusters_of_distinct)
  have "total_shared_size ?g = (\<Sum>item \<leftarrow> ?sf. size_bytes (hd (snd item)))"
    by (simp add: group_of_entry_def)
  also have "\<dots> = (\<Sum>item \<leftarrow> ?sf. sz (fst item))"
    by (rule arg_cong[where f = sum_list], rule map_cong[OF refl])
       (rule cluster_first_size[OF sz])
  also have "\<dots> = (\<Sum>gid \<in> set (map fst ?sf). sz gid)" by (rule sum_list_keys[OF d])
  finally have t: "total_shared_size ?g = (\<Sum>gid \<in> set (cluster_ids ?g). sz gid)"
    by (simp add: cluster_ids_def sf)
  have "wasted_space ?g =
          (\<Sum>item \<leftarrow> ?sf. size_bytes (hd (snd item)) * (int (length (snd item)) - 1))"
    by (simp add: group_of_entry_def)
  also have "\<dots> = (\<Sum>item \<leftarrow> ?sf. sz (fst item) * (int (length (records_of ?g (fst item))) - 1))"
  proof (rule arg_cong[where f = sum_list], rule map_cong[OF refl])
    fix item assume item: "item \<in> set ?sf"
    have "records_of ?g (fst item) = snd item"
      by (rule records_of_item) (simp_all add: sf d item)
    with cluster_first_size[OF sz item]
    show "size_bytes (hd (snd item)) * (int (length (snd item)) - 1) =
          sz (fst item) * (int (length (records_of ?g (fst item))) - 1)" by simp
  qed
  also have "\<dots> = (\<Sum>gid \<in> set (map fst ?sf). sz gid * (int (length (records_of ?g gid)) - 1))"
    by (rule sum_list_keys[OF d])
  finally have w: "wasted_space ?g =
      (\<Sum>gid \<in> set (cluster_ids ?g). sz gid * (int (length (records_of ?g gid)) - 1))"
    by (simp add: cluster_ids_def sf)
  from d t w show ?thesis by (simp add: metrics_consistent_def cluster_ids_def sf)
qed

lemma analyze_group_records:
  assumes "analyze_folder_groups m files = Inr gs" "g \<in> set gs" "gid \<in> set (cluster_ids g)"
  shows "records_of g gid = filter (\<lambda>f. group_id f = gid) files"
proof -
  from assms(1,2) obtain K where g: "g = group_of_entry (K, clusters_of K (groups_by_id files))"
    by (auto simp: analyze_folder_groups_set)
  let ?sf = "clusters_of K (groups_by_id files)"
  have sf: "shared_files g = ?sf" by (simp add: g group_of_entry_def)
  from assms(3) obtain item where item: "item \<in> set ?sf" "fst item = gid"
    by (auto simp: cluster_ids_def sf)
  have "records_of g (fst item) = snd item"
    by (rule records_of_item) (simp_all add: sf clusters_of_distinct item)
  with item show ?thesis by (simp add: clusters_of_set)
qed

lemma fold_filter_id:
  assumes "\<And>x. x \<in> set xs \<Longrightarrow> \<not> P x \<Longrightarrow> f x = id"
  shows "fold f (filter P xs) s = fold f xs s"
  using assms by (induction xs arbitrary: s) auto

lemma single_folder_cluster_skipped:
  assumes "card (folder ` set (filter (\<lambda>f. group_id f = gid) files)) \<le> 1"
  shows "folder_relationships (groups_by_id (filter (\<lambda>f. group_id f \<noteq> gid) files)) =
         folder_relationships (groups_by_id files)"
proof -
  have "relate_cluster item = id"
    if "item \<in> set (groups_by_id files)" "\<not> fst item \<noteq> gid" for item
  proof -
    obtain k fs where item: "item = (k, fs)" by (cases item)
    from that have "fs = filter (\<lambda>f. group_id f = gid) files"
      by (simp add: item groups_by_id_set)
    with assms that show ?thesis by (auto simp: item relate_cluster_eq fun_eq_iff)
  qed
  then show ?thesis
    unfolding folder_relationships_def groups_by_id_filter by (rule fold_filter_id)
qed

lemma singleton_list:
  assumes "distinct xs" "set xs = {x}"
  shows "xs = [x]"
proof (cases xs)
  case Nil
  with assms(2) show ?thesis by simp
next
  case (Cons y ys)
  with assms(2) have y: "y = x" and ys: "set ys \<subseteq> {x}" by auto
  from assms(1) Cons have "y \<notin> set ys" by simp
  have "ys = []"
  proof (cases ys)
    case Nil then show ?thesis .
  next
    case (Cons z zs)
    then have "z \<in> set ys" by simp
    with ys have "z = x" by blast
    with \<open>z \<in> set ys\<close> \<open>y \<notin> set ys\<close> y show ?thesis by simp
  qed
  with Cons y show ?thesis by simp
qed

lemma four_elements:
  assumes "k x1 = c" "k x2 = c" "k x3 = d" "k x4 = d" "c \<noteq> d"
  shows "{x \<in> {x1, x2, x3, x4}. k x = c} = {x1, x2}"
    and "{x \<in> {x1, x2, x3, x4}. k x = d} = {x3, x4}"
    and "k ` {x1, x2, x3, x4} = {c, d}"
  using assms by auto

lemma two_clusters_one_group:
  assumes files: "set files = {r1, r2, r3, r4}"
    and ids: "group_id r1 = c1" "group_id r2 = c1" "group_id r3 = c2" "group_id r4 = c2" "c1 \<noteq> c2"
    and sizes: "size_bytes r1 = s1" "size_bytes r2 = s1" "size_bytes r3 = s2" "size_bytes r4 = s2"
    and flds: "folder ` {r1, r2} = {a, b}" "folder ` {r3, r4} = {a, b}" "a \<noteq> b"
    and thr: "m \<le> s1 + s2"
  shows "\<exists>g. analyze_folder_groups m files = Inr [g] \<and> folders g = {a, b} \<and>
             set (cluster_ids g) = {c1, c2} \<and> total_shared_size g = s1 + s2"
proof -
  let ?cl = "groups_by_id files"
  define sz where "sz = (\<lambda>c. if c = c1 then s1 else s2)"
  have "sz c1 = s1" "sz c2 = s2" using ids(5) by (simp_all add: sz_def)
  then have "\<forall>f \<in> {r1, r2, r3, r4}. size_bytes f = sz (group_id f)"
    using ids(1-4) sizes by simp
  then have sz: "per_copy_size sz files" unfolding per_copy_size_def files .
  have gids: "group_id ` set files = {c1, c2}"
    unfolding files by (rule four_elements(3)[of group_id, OF ids])
  let ?F1 = "filter (\<lambda>f. group_id f = c1) files"
  let ?F2 = "filter (\<lambda>f. group_id f = c2) files"
  note four = four_elements[of group_id, OF ids]
  have f1: "set ?F1 = {r1, r2}" unfolding set_filter files by (rule four(1))
  have f2: "set ?F2 = {r3, r4}" unfolding set_filter files by (rule four(2))
  have k1: "folder ` set ?F1 = {a, b}" unfolding f1 by (rule flds(1))
  have k2: "folder ` set ?F2 = {a, b}" unfolding f2 by (rule flds(2))
  have in1: "(c1, ?F1) \<in> set (clusters_of {a, b} ?cl)"
    unfolding clusters_of_set fst_conv snd_conv gids using k1 by blast
  have in2: "(c2, ?F2) \<in> set (clusters_of {a, b} ?cl)"
    unfolding clusters_of_set fst_conv snd_conv gids using k2 by blast
  have item_only: "K = {a, b} \<and> (item = (c1, ?F1) \<or> item = (c2, ?F2))"
    if "item \<in> set (clusters_of K ?cl)" for item K
  proof -
    from that have i: "fst item \<in> {c1, c2}"
      "snd item = filter (\<lambda>f. group_id f = fst item) files"
      "folder ` set (snd item) = K"
      unfolding clusters_of_set gids by blast+
    from i(1) have "fst item = c1 \<or> fst item = c2" by blast
    then show ?thesis
    proof
      assume c: "fst item = c1"
      with i(2) have s: "snd item = ?F1" by simp
      with i(3) k1 have "K = {a, b}" by simp
      moreover from c s have "item = (c1, ?F1)" by (metis prod.collapse)
      ultimately show ?thesis by blast
    next
      assume c: "fst item = c2"
      with i(2) have s: "snd item = ?F2" by simp
      with i(3) k2 have "K = {a, b}" by simp
      moreover from c s have "item = (c2, ?F2)" by (metis prod.collapse)
      ultimately show ?thesis by blast
    qed
  qed
  let ?sf = "clusters_of {a, b} ?cl"
  let ?g = "group_of_entry ({a, b}, ?sf)"
  have "set ?sf = {(c1, ?F1), (c2, ?F2)}"
    using in1 in2 item_only[of _ "{a, b}"] by blast
  then have "fst ` set ?sf = {c1, c2}" by simp
  then have keys: "set (map fst ?sf) = {c1, c2}" by simp
  have ne: "?sf \<noteq> []" using in1 by (cases ?sf) auto
  have ids_g: "cluster_ids ?g = map fst ?sf" by (simp add: cluster_ids_def group_of_entry_def)
  from group_of_entry_metrics[OF sz, of "{a, b}"]
  have "total_shared_size ?g = (\<Sum>gid \<in> set (cluster_ids ?g). sz gid)"
    by (simp add: metrics_consistent_def)
  also have "\<dots> = (\<Sum>gid \<in> {c1, c2}. sz gid)" by (simp only: ids_g keys)
  also have "\<dots> = s1 + s2" using ids(5) by (simp add: sz_def)
  finally have tot: "total_shared_size ?g = s1 + s2" .
  have card: "card {a, b} > 1" using flds(3) by simp
  obtain gs where gs: "analyze_folder_groups m files = Inr gs"
    by (simp add: analyze_folder_groups_eq)
  have "set gs = {?g}"
  proof (rule set_eqI)
    fix g
    have "g \<in> set gs \<longleftrightarrow> (\<exists>K. card K > 1 \<and> clusters_of K ?cl \<noteq> [] \<and>
            g = group_of_entry (K, clusters_of K ?cl) \<and> m \<le> total_shared_size g)"
      by (rule analyze_folder_groups_set[OF gs])
    also have "\<dots> \<longleftrightarrow> g = ?g"
    proof
      assume "\<exists>K. card K > 1 \<and> clusters_of K ?cl \<noteq> [] \<and>
            g = group_of_entry (K, clusters_of K ?cl) \<and> m \<le> total_shared_size g"
      then obtain K where K: "clusters_of K ?cl \<noteq> []" "g = group_of_entry (K, clusters_of K ?cl)"
        by blast
      from K(1) obtain item where "item \<in> set (clusters_of K ?cl)" by (cases "clusters_of K ?cl") auto
      then have "K = {a, b}" using item_only by blast
      with K(2) show "g = ?g" by simp
    next
      assume "g = ?g"
      with card ne tot thr have "card {a, b} > 1 \<and> clusters_of {a, b} ?cl \<noteq> [] \<and>
            g = group_of_entry ({a, b}, clusters_of {a, b} ?cl) \<and> m \<le> total_shared_size g"
        by simp
      then show "\<exists>K. card K > 1 \<and> clusters_of K ?cl \<noteq> [] \<and>
            g = group_of_entry (K, clusters_of K ?cl) \<and> m \<le> total_shared_size g"
        by (rule exI)
    qed
    finally show "g \<in> set gs \<longleftrightarrow> g \<in> {?g}" by simp
  qed
  moreover have "distinct gs"
    using analyze_folder_groups_distinct[OF gs] by (rule distinct_map[THEN iffD1, THEN conjunct1])
  ultimately have "gs = [?g]" by (rule singleton_list[rotated])
  moreover have "folders ?g = {a, b}" by (simp add: group_of_entry_def)
  ultimately show ?thesis using gs tot ids_g keys by simp
qed

lemma fold_merge_entry_disjoint:
  assumes "distinct (map fst ys)" "fst ` set xs \<inter> fst ` set ys = {}"
  shows "fold merge_entry ys xs = xs @ ys"
  using assms
proof (induction ys arbitrary: xs)
  case Nil show ?case by simp
next
  case (Cons y ys)
  from Cons.prems(2) have fresh: "fst y \<notin> fst ` set xs" by auto
  then have step: "merge_entry y xs = xs @ [y]"
    by (simp add: merge_entry_def dd_update_absent)
  from Cons.prems have "distinct (map fst ys)" "fst ` set (xs @ [y]) \<inter> fst ` set ys = {}"
    by auto
  from Cons.IH[OF this] show ?case by (simp add: step)
qed

lemma cluster_ids_merge_groups:
  assumes "distinct (cluster_ids h)" "set (cluster_ids g) \<inter> set (cluster_ids h) = {}"
  shows "shared_files (merge_groups g h) = shared_files g @ shared_files h"
proof -
  from assms have "distinct (map fst (shared_files h))"
    "fst ` set (shared_files g) \<inter> fst ` set (shared_files h) = {}"
    by (simp_all add: cluster_ids_def)
  from fold_merge_entry_disjoint[OF this] show ?thesis by (simp add: merge_groups_def)
qed

lemma well_formed_merge_groups:
  assumes "well_formed_group files g" "well_formed_group files h"
    and "shared_files (merge_groups g h) = shared_files g @ shared_files h"
  shows "well_formed_group files (merge_groups g h)"
proof -
  have t: "total_shared_size (merge_groups g h) = total_shared_size g + total_shared_size h"
    and w: "wasted_space (merge_groups g h) = wasted_space g + wasted_space h"
    by (simp_all add: merge_groups_def)
  from assms show ?thesis unfolding well_formed_group_def t w by simp
qed

lemma merge_invariant_step:
  assumes inv: "merge_invariant files gs" and fm: "first_mergeable gs = Some (i, j)"
  shows "merge_invariant files (merge_at i j gs)"
proof -
  from first_mergeable_Some[OF fm] have ij: "i < j" "j < length gs" by auto
  let ?gi = "gs ! i" and ?gj = "gs ! j"
  let ?m = "merge_groups ?gi ?gj"
  obtain a b c where s: "gs = a @ ?gi # b @ ?gj # c" "merge_at i j gs = a @ ?m # b @ c"
    using merge_at_split[OF ij] by blast
  from inv have d: "distinct (concat (map cluster_ids gs))"
    and wf: "\<forall>g \<in> set gs. well_formed_group files g"
    by (simp_all add: merge_invariant_def)
  have d': "distinct (concat (map cluster_ids (a @ ?gi # b @ ?gj # c)))"
    using d s(1) by simp
  then have dj: "distinct (cluster_ids ?gj)"
    and disj: "set (cluster_ids ?gi) \<inter> set (cluster_ids ?gj) = {}"
    by auto
  have sf: "shared_files ?m = shared_files ?gi @ shared_files ?gj"
    by (rule cluster_ids_merge_groups[OF dj disj])
  then have ids: "cluster_ids ?m = cluster_ids ?gi @ cluster_ids ?gj"
    by (simp add: cluster_ids_def)
  have "distinct (concat (map cluster_ids (a @ ?m # b @ c)))"
    using d' unfolding map_append list.map concat_append concat.simps ids
    by auto
  then have 1: "distinct (concat (map cluster_ids (merge_at i j gs)))" by (simp only: s(2))
  have gi: "?gi \<in> set gs" and gj: "?gj \<in> set gs" using ij by auto
  with wf have "well_formed_group files ?m"
    using well_formed_merge_groups[OF _ _ sf] by blast
  with wf set_merge_at(1)[OF ij] have 2: "\<forall>g \<in> set (merge_at i j gs). well_formed_group files g"
    by blast
  from 1 2 show ?thesis by (simp add: merge_invariant_def)
qed

lemma relationship_ids_add:
  assumes "gid \<notin> set (concat (map (map fst \<circ> snd) rel))"
  shows "mset (concat (map (map fst \<circ> snd) (dd_update K [] (dd_update gid [] f) rel))) =
           add_mset gid (mset (concat (map (map fst \<circ> snd) rel)))"
  using assms
proof (induction rel)
  case Nil show ?case by simp
next
  case (Cons entry rel)
  obtain K' v where entry: "entry = (K', v)" by (cases entry)
  show ?case
  proof (cases "K' = K")
    case True
    from Cons.prems have "gid \<notin> fst ` set v" by (simp add: entry)
    then have "map fst (dd_update gid [] f v) = map fst v @ [gid]"
      by (simp add: dd_update_keys)
    with True show ?thesis by (simp add: entry)
  next
    case False
    from Cons.prems have "gid \<notin> set (concat (map (map fst \<circ> snd) rel))" by simp
    from Cons.IH[OF this] False show ?thesis by (simp add: entry)
  qed
qed

lemma relationship_ids:
  assumes "distinct (map fst by_id)"
  shows "mset (concat (map (map fst \<circ> snd) (folder_relationships by_id))) =
           mset (map fst (filter (\<lambda>item. card (folder ` set (snd item)) > 1) by_id))"
  using assms
proof (induction by_id rule: rev_induct)
  case Nil show ?case by (simp add: folder_relationships_def)
next
  case (snoc item by_id)
  obtain gid gfs where item: "item = (gid, gfs)" by (cases item)
  from snoc.prems have d: "distinct (map fst by_id)" and fresh: "gid \<notin> fst ` set by_id"
    by (auto simp: item)
  note IH = snoc.IH[OF d]
  let ?rel = "folder_relationships by_id"
  show ?case
  proof (cases "card (folder ` set gfs) > 1")
    case False
    then show ?thesis using IH by (simp add: folder_relationships_snoc item relate_cluster_eq)
  next
    case True
    have "set (concat (map (map fst \<circ> snd) ?rel)) =
            set (map fst (filter (\<lambda>item. card (folder ` set (snd item)) > 1) by_id))"
      using IH by (rule mset_eq_setD)
    with fresh have fresh': "gid \<notin> set (concat (map (map fst \<circ> snd) ?rel))" by auto
    have rel': "folder_relationships (by_id @ [item]) =
        dd_update (folder ` set gfs) [] (dd_update gid [] (\<lambda>vs. vs @ gfs)) ?rel"
      using True by (simp add: folder_relationships_snoc item relate_cluster_eq)
    have "mset (concat (map (map fst \<circ> snd) (folder_relationships (by_id @ [item])))) =
          add_mset gid (mset (concat (map (map fst \<circ> snd) ?rel)))"
      unfolding rel' by (rule relationship_ids_add[OF fresh'])
    also have "\<dots> = add_mset gid
          (mset (map fst (filter (\<lambda>item. card (folder ` set (snd item)) > 1) by_id)))"
      by (simp only: IH)
    also have "\<dots> = mset (map fst (filter (\<lambda>item. card (folder ` set (snd item)) > 1)
          (by_id @ [item])))"
      using True by (simp add: item)
    finally show ?thesis .
  qed
qed

lemma distinct_concat_filter:
  "distinct (concat (map f xs)) \<Longrightarrow> distinct (concat (map f (filter P xs)))"
  by (induction xs) auto

lemma mset_concat_map_cong:
  assumes "mset xs = mset ys"
  shows "mset (concat (map f xs)) = mset (concat (map f ys))"
proof -
  have "mset (concat (map f zs)) = sum_mset (image_mset (\<lambda>z. mset (f z)) (mset zs))" for zs
    by (induction zs) simp_all
  with assms show ?thesis by simp
qed

lemma analyze_invariant:
  assumes "analyze_folder_groups m files = Inr gs"
  shows "merge_invariant files gs"
proof -
  let ?cl = "groups_by_id files"
  let ?rel = "folder_relationships ?cl"
  let ?P = "\<lambda>g. m \<le> total_shared_size g"
  have "distinct (map fst (filter (\<lambda>item. card (folder ` set (snd item)) > 1) ?cl))"
    by (rule distinct_map_filter) (rule groups_by_id_distinct)
  with relationship_ids[OF groups_by_id_distinct, of files]
  have d0: "distinct (concat (map (map fst \<circ> snd) ?rel))"
    by (metis mset_eq_imp_distinct_iff)
  have eq: "map cluster_ids (map group_of_entry ?rel) = map (map fst \<circ> snd) ?rel"
    by (simp add: cluster_ids_def group_of_entry_def)
  have "distinct (concat (map cluster_ids (map group_of_entry ?rel)))"
    unfolding eq by (rule d0)
  then have d: "distinct (concat (map cluster_ids (filter ?P (map group_of_entry ?rel))))"
    by (rule distinct_concat_filter)
  have "mset gs = mset (filter ?P (map group_of_entry ?rel))"
    using assms unfolding analyze_folder_groups_eq sort_by_size_desc_def by auto
  from mset_concat_map_cong[OF this, of cluster_ids] d
  have 1: "distinct (concat (map cluster_ids gs))" by (metis mset_eq_imp_distinct_iff)
  have 2: "well_formed_group files g" if "g \<in> set gs" for g
  proof -
    from assms that obtain K where "g = group_of_entry (K, clusters_of K ?cl)"
      by (auto simp: analyze_folder_groups_set)
    then show ?thesis
      by (auto simp: well_formed_group_def group_of_entry_def clusters_of_def)
  qed
  from 1 2 show ?thesis by (simp add: merge_invariant_def)
qed

lemma by_id_first_size:
  assumes sz: "per_copy_size sz files" and item: "item \<in> set (groups_by_id files)"
  shows "size_bytes (hd (snd item)) = sz (fst item)"
proof -
  let ?K = "folder ` set (snd item)"
  from item have "item \<in> set (clusters_of ?K (groups_by_id files))"
    by (simp add: clusters_of_def)
  then show ?thesis by (rule cluster_first_size[OF sz])
qed

lemma well_formed_metrics:
  assumes wf: "well_formed_group files g" and d: "distinct (cluster_ids g)"
    and sz: "per_copy_size sz files"
  shows "metrics_consistent sz g"
proof -
  let ?sf = "shared_files g"
  from wf have sub: "set ?sf \<subseteq> set (groups_by_id files)"
    and t0: "total_shared_size g = (\<Sum>item \<leftarrow> ?sf. size_bytes (hd (snd item)))"
    and w0: "wasted_space g =
       (\<Sum>item \<leftarrow> ?sf. size_bytes (hd (snd item)) * (int (length (snd item)) - 1))"
    by (simp_all add: well_formed_group_def)
  from d have d': "distinct (map fst ?sf)" by (simp add: cluster_ids_def)
  have fs: "size_bytes (hd (snd item)) = sz (fst item)" if "item \<in> set ?sf" for item
    using by_id_first_size[OF sz] sub that by blast
  have "(\<Sum>item \<leftarrow> ?sf. size_bytes (hd (snd item))) = (\<Sum>item \<leftarrow> ?sf. sz (fst item))"
    by (rule arg_cong[where f = sum_list], rule map_cong[OF refl]) (rule fs)
  also have "\<dots> = (\<Sum>gid \<in> set (map fst ?sf). sz gid)" by (rule sum_list_keys[OF d'])
  finally have t: "total_shared_size g = (\<Sum>gid \<in> set (cluster_ids g). sz gid)"
    by (simp add: cluster_ids_def t0)
  have "(\<Sum>item \<leftarrow> ?sf. size_bytes (hd (snd item)) * (int (length (snd item)) - 1)) =
        (\<Sum>item \<leftarrow> ?sf. sz (fst item) * (int (length (records_of g (fst item))) - 1))"
  proof (rule arg_cong[where f = sum_list], rule map_cong[OF refl])
    fix item assume item: "item \<in> set ?sf"
    have "records_of g (fst item) = snd item" by (rule records_of_item[OF d' item])
    with fs[OF item]
    show "size_bytes (hd (snd item)) * (int (length (snd item)) - 1) =
          sz (fst item) * (int (length (records_of g (fst item))) - 1)" by simp
  qed
  also have "\<dots> = (\<Sum>gid \<in> set (map fst ?sf). sz gid * (int (length (records_of g gid)) - 1))"
    by (rule sum_list_keys[OF d'])
  finally have w: "wasted_space g =
      (\<Sum>gid \<in> set (cluster_ids g). sz gid * (int (length (records_of g gid)) - 1))"
    by (simp add: cluster_ids_def w0)
  from d t w show ?thesis by (simp add: metrics_consistent_def)
qed

lemma well_formed_recomputes:
  assumes "well_formed_group files g"
  shows "recomputes g"
proof -
  from assms have sub: "set (shared_files g) \<subseteq> set (groups_by_id files)"
    by (simp add: well_formed_group_def)
  have ne: "\<forall>fs \<in> set (map snd (shared_files g)). fs \<noteq> []"
  proof
    fix fs assume "fs \<in> set (map snd (shared_files g))"
    then obtain k where "(k, fs) \<in> set (shared_files g)" by auto
    with sub have "(k, fs) \<in> set (groups_by_id files)" by blast
    then show "fs \<noteq> []" by (rule groups_by_id_nonempty)
  qed
  from assms total_loop_eq[OF ne, of 0] wasted_loop_eq[OF ne, of 0] show ?thesis
    by (simp add: recomputes_def well_formed_group_def comp_def)
qed

lemma merge_invariant_distinct:
  assumes "merge_invariant files gs" "g \<in> set gs"
  shows "distinct (cluster_ids g)"
proof -
  from assms(1) have "distinct (concat (map cluster_ids gs))" by (simp add: merge_invariant_def)
  with assms(2) show ?thesis by (auto simp: distinct_concat_iff)
qed

lemma merge_invariant_sort:
  "merge_invariant files (sort_by_size_desc gs) \<longleftrightarrow> merge_invariant files gs"
proof -
  have "mset (sort_by_size_desc gs) = mset gs" by (simp add: sort_by_size_desc_def)
  from mset_concat_map_cong[OF this, of cluster_ids]
  have "distinct (concat (map cluster_ids (sort_by_size_desc gs))) \<longleftrightarrow>
        distinct (concat (map cluster_ids gs))"
    by (rule mset_eq_imp_distinct_iff)
  then show ?thesis by (simp add: merge_invariant_def set_sort_by_size_desc)
qed

lemma distinct_mapD: "distinct (map f xs) \<Longrightarrow> distinct xs"
  by (simp add: distinct_map)

lemma cluster_views_set:
  "cluster_view ` set (clusters_of K (groups_by_id files)) =
     (\<lambda>gid. (gid, filter_mset (\<lambda>f. group_id f = gid) (mset files))) `
       {gid \<in> group_id ` set_mset (mset files).
          folder ` set_mset (filter_mset (\<lambda>f. group_id f = gid) (mset files)) = K}"
  (is "?L = ?R")
proof (rule set_eqI)
  fix x
  show "x \<in> ?L \<longleftrightarrow> x \<in> ?R"
  proof
    assume "x \<in> ?L"
    then obtain item where item: "item \<in> set (clusters_of K (groups_by_id files))"
      and x: "x = cluster_view item" by blast
    from item have i: "fst item \<in> group_id ` set files"
      "snd item = filter (\<lambda>f. group_id f = fst item) files"
      "folder ` set (snd item) = K"
      unfolding clusters_of_set by blast+
    have m: "mset (snd item) = filter_mset (\<lambda>f. group_id f = fst item) (mset files)"
      by (subst i(2)) simp
    have "folder ` set_mset (mset (snd item)) = K" using i(3) by simp
    then have k: "folder ` set_mset (filter_mset (\<lambda>f. group_id f = fst item) (mset files)) = K"
      unfolding m .
    have "x = (fst item, filter_mset (\<lambda>f. group_id f = fst item) (mset files))"
      unfolding x cluster_view_def m ..
    with i(1) k show "x \<in> ?R" by simp
  next
    assume "x \<in> ?R"
    then obtain gid where gid: "gid \<in> group_id ` set files"
      and k: "folder ` set_mset (filter_mset (\<lambda>f. group_id f = gid) (mset files)) = K"
      and x: "x = (gid, filter_mset (\<lambda>f. group_id f = gid) (mset files))"
      by auto
    let ?item = "(gid, filter (\<lambda>f. group_id f = gid) files)"
    have m: "mset (filter (\<lambda>f. group_id f = gid) files) =
             filter_mset (\<lambda>f. group_id f = gid) (mset files)" by simp
    have "folder ` set_mset (mset (filter (\<lambda>f. group_id f = gid) files)) = K"
      unfolding m by (rule k)
    then have "folder ` set (filter (\<lambda>f. group_id f = gid) files) = K"
      unfolding set_mset_mset .
    with gid have "?item \<in> set (clusters_of K (groups_by_id files))"
      unfolding clusters_of_set fst_conv snd_conv by blast
    moreover have "x = cluster_view ?item" unfolding x cluster_view_def fst_conv snd_conv m ..
    ultimately show "x \<in> ?L" by blast
  qed
qed

lemma cluster_views_distinct:
  "distinct (map cluster_view (clusters_of K (groups_by_id files)))"
proof -
  have "map fst (map cluster_view (clusters_of K (groups_by_id files))) =
        map fst (clusters_of K (groups_by_id files))"
    by (simp add: cluster_view_def)
  with clusters_of_distinct[of K files]
  have "distinct (map fst (map cluster_view (clusters_of K (groups_by_id files))))"
    by (simp only:)
  then show ?thesis by (rule distinct_mapD)
qed

lemma cluster_views_permutation:
  assumes "mset files' = mset files"
  shows "image_mset cluster_view (mset (clusters_of K (groups_by_id files'))) =
         image_mset cluster_view (mset (clusters_of K (groups_by_id files)))"
proof -
  have "set (map cluster_view (clusters_of K (groups_by_id files'))) =
        set (map cluster_view (clusters_of K (groups_by_id files)))"
    unfolding set_map cluster_views_set assms ..
  then have "mset (map cluster_view (clusters_of K (groups_by_id files'))) =
        mset (map cluster_view (clusters_of K (groups_by_id files)))"
    using cluster_views_distinct set_eq_iff_mset_eq_distinct by blast
  then show ?thesis by simp
qed

lemma group_view_of_entry:
  assumes sz: "per_copy_size sz files"
  shows "group_view (group_of_entry (K, clusters_of K (groups_by_id files))) =
         (K,
          sum_mset (image_mset (\<lambda>p. sz (fst p))
            (image_mset cluster_view (mset (clusters_of K (groups_by_id files))))),
          sum_mset (image_mset (\<lambda>p. sz (fst p) * (int (size (snd p)) - 1))
            (image_mset cluster_view (mset (clusters_of K (groups_by_id files))))),
          image_mset cluster_view (mset (clusters_of K (groups_by_id files))))"
proof -
  let ?sf = "clusters_of K (groups_by_id files)"
  have fs: "size_bytes (hd (snd item)) = sz (fst item)" if "item \<in> set ?sf" for item
    using cluster_first_size[OF sz that] .
  have "(\<Sum>item \<leftarrow> ?sf. size_bytes (hd (snd item))) = (\<Sum>item \<leftarrow> ?sf. sz (fst item))"
    by (rule arg_cong[where f = sum_list], rule map_cong[OF refl]) (rule fs)
  also have "\<dots> = sum_mset (image_mset (\<lambda>p. sz (fst p)) (image_mset cluster_view (mset ?sf)))"
    by (simp add: sum_mset_sum_list[symmetric] image_mset.compositionality comp_def cluster_view_def)
  finally have t: "(\<Sum>item \<leftarrow> ?sf. size_bytes (hd (snd item))) =
      sum_mset (image_mset (\<lambda>p. sz (fst p)) (image_mset cluster_view (mset ?sf)))" .
  have "(\<Sum>item \<leftarrow> ?sf. size_bytes (hd (snd item)) * (int (length (snd item)) - 1)) =
        (\<Sum>item \<leftarrow> ?sf. sz (fst item) * (int (length (snd item)) - 1))"
    by (rule arg_cong[where f = sum_list], rule map_cong[OF refl]) (simp add: fs)
  also have "\<dots> = sum_mset (image_mset (\<lambda>p. sz (fst p) * (int (size (snd p)) - 1))
                (image_mset cluster_view (mset ?sf)))"
    by (simp add: sum_mset_sum_list[symmetric] image_mset.compositionality comp_def cluster_view_def)
  finally have w: "(\<Sum>item \<leftarrow> ?sf. size_bytes (hd (snd item)) * (int (length (snd item)) - 1)) =
      sum_mset (image_mset (\<lambda>p. sz (fst p) * (int (size (snd p)) - 1))
                (image_mset cluster_view (mset ?sf)))" .
  show ?thesis
    unfolding group_view_def group_of_entry_def fst_conv snd_conv
    by (simp add: t w)
qed

lemma group_view_permutation:
  assumes sz: "per_copy_size sz files" and perm: "mset files' = mset files"
  shows "group_view (group_of_entry (K, clusters_of K (groups_by_id files'))) =
         group_view (group_of_entry (K, clusters_of K (groups_by_id files)))"
proof -
  from perm have "set files' = set files" by (rule mset_eq_setD)
  with sz have sz': "per_copy_size sz files'" by (simp add: per_copy_size_def)
  show ?thesis
    unfolding group_view_of_entry[OF sz] group_view_of_entry[OF sz']
      cluster_views_permutation[OF perm] ..
qed

lemma analyze_views_subset:
  assumes sz: "per_copy_size sz files" and perm: "mset files' = mset files"
    and gs: "analyze_folder_groups m files = Inr gs"
    and gs': "analyze_folder_groups m files' = Inr gs'"
  shows "group_view ` set gs \<subseteq> group_view ` set gs'"
proof
  fix x assume "x \<in> group_view ` set gs"
  then obtain g where g: "g \<in> set gs" and x: "x = group_view g" by blast
  let ?cl = "groups_by_id files" and ?cl' = "groups_by_id files'"
  from g obtain K where K: "card K > 1" "clusters_of K ?cl \<noteq> []"
    "g = group_of_entry (K, clusters_of K ?cl)" "m \<le> total_shared_size g"
    unfolding analyze_folder_groups_set[OF gs] by blast
  let ?g' = "group_of_entry (K, clusters_of K ?cl')"
  have v: "group_view ?g' = group_view g"
    unfolding K(3) by (rule group_view_permutation[OF sz perm])
  then have "fst (snd (group_view ?g')) = fst (snd (group_view g))" by simp
  then have t: "total_shared_size ?g' = total_shared_size g" by (simp add: group_view_def)
  have "clusters_of K ?cl' \<noteq> []"
  proof
    assume "clusters_of K ?cl' = []"
    then have "image_mset cluster_view (mset (clusters_of K ?cl')) = {#}" by simp
    then have "image_mset cluster_view (mset (clusters_of K ?cl)) = {#}"
      unfolding cluster_views_permutation[OF perm] .
    with K(2) show False by simp
  qed
  with K(1,4) t have "?g' \<in> set gs'"
    unfolding analyze_folder_groups_set[OF gs'] by auto
  with v x show "x \<in> group_view ` set gs'" by (metis image_eqI)
qed

lemma analyze_views_distinct:
  assumes "analyze_folder_groups m files = Inr gs"
  shows "distinct (map group_view gs)"
proof -
  have "map fst (map group_view gs) = map folders gs" by (simp add: group_view_def)
  with analyze_folder_groups_distinct[OF assms]
  have "distinct (map fst (map group_view gs))" by (simp only:)
  then show ?thesis by (rule distinct_mapD)
qed

section \<open>The claims\<close>

text \<open>
  C1: when all records sharing a \<open>group_id\<close> have equal size, there is a per-copy size for
  every cluster, and for every such assignment \<open>sz\<close> each group returned by
  \<open>analyze_folder_groups\<close> has \<open>total_shared_size\<close> equal to the sum of \<open>sz\<close> over its
  distinct cluster IDs and \<open>wasted_space\<close> equal to the sum of \<open>sz\<close> times the number of
  the cluster's records in the group minus one; the records a group holds for a cluster
  ID are all the input records of that cluster.
\<close>

theorem analyze_metrics:
  assumes "equal_size_per_group files"
  shows "(\<exists>sz. per_copy_size sz files) \<and>
         (\<exists>gs. analyze_folder_groups m files = Inr gs \<and>
            (\<forall>g \<in> set gs.
               (\<forall>sz. per_copy_size sz files \<longrightarrow> metrics_consistent sz g) \<and>
               (\<forall>gid \<in> set (cluster_ids g).
                  records_of g gid = filter (\<lambda>f. group_id f = gid) files)))"
proof
  show "\<exists>sz. per_copy_size sz files" by (rule per_copy_size_exists[OF assms])
  obtain gs where gs: "analyze_folder_groups m files = Inr gs"
    by (simp add: analyze_folder_groups_eq)
  have "metrics_consistent sz g" if "g \<in> set gs" "per_copy_size sz files" for g sz
  proof -
    from gs that(1) obtain K where "g = group_of_entry (K, clusters_of K (groups_by_id files))"
      by (auto simp: analyze_folder_groups_set)
    with that(2) show ?thesis by (simp add: group_of_entry_metrics)
  qed
  moreover have "records_of g gid = filter (\<lambda>f. group_id f = gid) files"
    if "g \<in> set gs" "gid \<in> set (cluster_ids g)" for g gid
    using analyze_group_records[OF gs that] .
  ultimately show "\<exists>gs. analyze_folder_groups m files = Inr gs \<and>
            (\<forall>g \<in> set gs.
               (\<forall>sz. per_copy_size sz files \<longrightarrow> metrics_consistent sz g) \<and>
               (\<forall>gid \<in> set (cluster_ids g).
                  records_of g gid = filter (\<lambda>f. group_id f = gid) files))"
    using gs by blast
qed

theorem analyze_metrics_witness:
  "equal_size_per_group copies_files \<and>
   per_copy_size copies_sz copies_files \<and>
   analyze_folder_groups 0 copies_files = Inr [copies_group] \<and>
   metrics_consistent copies_sz copies_group \<and>
   set (cluster_ids copies_group) = {''7'', ''8''} \<and>
   total_shared_size copies_group = copies_sz ''7'' + copies_sz ''8'' \<and>
   records_of copies_group ''7'' = filter (\<lambda>f. group_id f = ''7'') copies_files \<and>
   length (records_of copies_group ''7'') = 3"
proof -
  have h: "equal_size_per_group copies_files" by code_simp
  have p: "per_copy_size copies_sz copies_files" by code_simp
  have a: "analyze_folder_groups 0 copies_files = Inr [copies_group]" by code_simp
  have k: "set (cluster_ids copies_group) = {''7'', ''8''}" by code_simp
  have t: "total_shared_size copies_group = copies_sz ''7'' + copies_sz ''8''" by code_simp
  have l: "length (records_of copies_group ''7'') = 3" by code_simp
  from analyze_metrics[OF h, of 0] a
  have "\<forall>sz. per_copy_size sz copies_files \<longrightarrow> metrics_consistent sz copies_group"
    and r: "\<forall>gid \<in> set (cluster_ids copies_group).
           records_of copies_group gid = filter (\<lambda>f. group_id f = gid) copies_files"
    by simp_all
  with p have m: "metrics_consistent copies_sz copies_group" by blast
  from r k have "records_of copies_group ''7'' = filter (\<lambda>f. group_id f = ''7'') copies_files"
    by blast
  with h p a m k t l show ?thesis by simp
qed

text \<open>
  C2: for every list of records and every non-negative \<open>min_group_size\<close>, every group
  returned by \<open>analyze_folder_groups\<close> has \<open>total_shared_size\<close> at least \<open>min_group_size\<close>,
  and so has every group that \<open>compact_nested_folders\<close> returns on that list.
\<close>

theorem threshold_respected:
  assumes "0 \<le> m"
  shows "\<exists>gs. analyze_folder_groups m files = Inr gs \<and>
           (\<forall>g \<in> set gs. m \<le> total_shared_size g) \<and>
           (\<exists>out. compact_nested_folders gs = Some out \<and>
                  (\<forall>g \<in> set out. m \<le> total_shared_size g))"
proof -
  obtain gs where gs: "analyze_folder_groups m files = Inr gs"
    by (simp add: analyze_folder_groups_eq)
  then have a: "\<forall>g \<in> set gs. m \<le> total_shared_size g"
    unfolding analyze_folder_groups_eq by (auto simp: set_sort_by_size_desc)
  from compact_result[of "\<lambda>gs. \<forall>g \<in> set gs. m \<le> total_shared_size g" gs,
      OF a threshold_merge_at[OF assms]]
  obtain r where "compact_nested_folders gs = Some (sort_by_size_desc r)"
    "\<forall>g \<in> set r. m \<le> total_shared_size g" by blast
  with gs a show ?thesis by (simp add: set_sort_by_size_desc)
qed

theorem threshold_respected_witness:
  "(0::int) \<le> 500 \<and>
   analyze_folder_groups 500 overlap_files = Inr overlap_groups \<and>
   500 \<le> total_shared_size (overlap_groups ! 0) \<and>
   500 \<le> total_shared_size (overlap_groups ! 1) \<and>
   compact_nested_folders overlap_groups = Some [overlap_merged] \<and>
   500 \<le> total_shared_size overlap_merged"
proof -
  have m: "(0::int) \<le> 500" by simp
  have a: "analyze_folder_groups 500 overlap_files = Inr overlap_groups" by code_simp
  have b: "compact_nested_folders overlap_groups = Some [overlap_merged]" by code_simp
  have l: "overlap_groups ! 0 \<in> set overlap_groups" "overlap_groups ! 1 \<in> set overlap_groups"
    by (simp_all add: overlap_groups_def)
  from threshold_respected[OF m, of overlap_files] a b
  have "\<forall>g \<in> set overlap_groups. 500 \<le> total_shared_size g"
    and "500 \<le> total_shared_size overlap_merged" by simp_all
  with a b l show ?thesis by simp
qed

text \<open>
  C3: with \<open>min_group_size\<close> 1500 and an input of exactly two clusters over the same two
  distinct folders, two records of size 1000 and two records of size 2000 in any order,
  \<open>analyze_folder_groups\<close> returns exactly one group, holding both clusters, with
  \<open>total_shared_size\<close> 3000: the threshold is applied to the accumulated group.
\<close>

theorem threshold_after_accumulation:
  assumes "mset files = {#r1, r2, r3, r4#}"
    and "group_id r1 = c1" "group_id r2 = c1" "group_id r3 = c2" "group_id r4 = c2" "c1 \<noteq> c2"
    and "size_bytes r1 = 1000" "size_bytes r2 = 1000" "size_bytes r3 = 2000" "size_bytes r4 = 2000"
    and "folder ` {r1, r2} = {a, b}" "folder ` {r3, r4} = {a, b}" "a \<noteq> b"
  shows "\<exists>g. analyze_folder_groups 1500 files = Inr [g] \<and> folders g = {a, b} \<and>
             set (cluster_ids g) = {c1, c2} \<and> total_shared_size g = 3000"
proof -
  from assms(1) have "set_mset (mset files) = set_mset {#r1, r2, r3, r4#}" by simp
  then have files: "set files = {r1, r2, r3, r4}" by simp
  from two_clusters_one_group[OF files assms(2-13), of 1500] show ?thesis by simp
qed

theorem threshold_after_accumulation_witness:
  "mset threshold_files =
     {#mk_file ''1'' ''photos'' 1000, mk_file ''1'' ''backup'' 1000,
       mk_file ''2'' ''photos'' 2000, mk_file ''2'' ''backup'' 2000#} \<and>
   folder ` {mk_file ''1'' ''photos'' 1000, mk_file ''1'' ''backup'' 1000} = {''photos'', ''backup''} \<and>
   folder ` {mk_file ''2'' ''photos'' 2000, mk_file ''2'' ''backup'' 2000} = {''photos'', ''backup''} \<and>
   ''photos'' \<noteq> ''backup'' \<and> ''1'' \<noteq> ''2'' \<and>
   analyze_folder_groups 1500 threshold_files = Inr [threshold_group] \<and>
   total_shared_size threshold_group = 3000"
proof -
  let ?r1 = "mk_file ''1'' ''photos'' 1000" and ?r2 = "mk_file ''1'' ''backup'' 1000"
  let ?r3 = "mk_file ''2'' ''photos'' 2000" and ?r4 = "mk_file ''2'' ''backup'' 2000"
  have m: "mset threshold_files = {#?r1, ?r2, ?r3, ?r4#}"
    by (simp add: threshold_files_def)
  have i: "group_id ?r1 = ''1''" "group_id ?r2 = ''1''" "group_id ?r3 = ''2''" "group_id ?r4 = ''2''"
    "''1'' \<noteq> ''2''"
    by (simp_all add: mk_file_def)
  have s: "size_bytes ?r1 = 1000" "size_bytes ?r2 = 1000" "size_bytes ?r3 = 2000" "size_bytes ?r4 = 2000"
    by (simp_all add: mk_file_def)
  have f: "folder ` {?r1, ?r2} = {''photos'', ''backup''}"
    "folder ` {?r3, ?r4} = {''photos'', ''backup''}" "''photos'' \<noteq> ''backup''"
    by (simp_all add: mk_file_def)
  have a: "analyze_folder_groups 1500 threshold_files = Inr [threshold_group]" by code_simp
  have t: "total_shared_size threshold_group = 3000" by (simp add: threshold_group_def)
  from threshold_after_accumulation[OF m i s f] a t
  show ?thesis using m f i(5) by simp
qed

text \<open>
  C4: in the list returned by \<open>compact_nested_folders\<close> no two groups at different
  positions are mergeable: no folder of the one equals, or is nested with, a folder of the
  other. In particular three groups with folder sets \<open>{A, A/x}\<close>, \<open>{A/x, B}\<close> and
  \<open>{B, C}\<close>, in any order, collapse into one group, whose folders are all four names.
\<close>

theorem compact_leaves_no_mergeable_pair:
  "(\<exists>out. compact_nested_folders gs = Some out \<and>
      (\<forall>i \<in> {0 ..< length out}. \<forall>j \<in> {0 ..< length out}. i \<noteq> j \<longrightarrow>
         \<not> mergeable (out ! i) (out ! j))) \<and>
   (\<forall>g1 g2 g3 A x B C hs.
      folders g1 = {A, A @ ''/'' @ x} \<and> folders g2 = {A @ ''/'' @ x, B} \<and>
      folders g3 = {B, C} \<and> set hs = {g1, g2, g3} \<longrightarrow>
      (\<exists>g. compact_nested_folders hs = Some [g] \<and> folders g = {A, A @ ''/'' @ x, B, C}))"
proof (intro conjI allI impI)
  from compact_result[of "\<lambda>_. True" gs] obtain r where
    r: "compact_nested_folders gs = Some (sort_by_size_desc r)" "first_mergeable r = None"
    by auto
  have "first_mergeable (sort_by_size_desc r) = None" using r(2) by (simp add: first_mergeable_sort)
  then have "\<forall>i \<in> {0 ..< length (sort_by_size_desc r)}. \<forall>j \<in> {0 ..< length (sort_by_size_desc r)}.
      i \<noteq> j \<longrightarrow> \<not> mergeable (sort_by_size_desc r ! i) (sort_by_size_desc r ! j)"
    unfolding mergeable_iff_should_merge
    by (intro ballI impI no_merge_positions) simp_all
  with r(1) show "\<exists>out. compact_nested_folders gs = Some out \<and>
      (\<forall>i \<in> {0 ..< length out}. \<forall>j \<in> {0 ..< length out}. i \<noteq> j \<longrightarrow>
         \<not> mergeable (out ! i) (out ! j))" by blast
next
  fix g1 g2 g3 :: FolderGroup and A x B C :: string and hs
  assume "folders g1 = {A, A @ ''/'' @ x} \<and> folders g2 = {A @ ''/'' @ x, B} \<and>
      folders g3 = {B, C} \<and> set hs = {g1, g2, g3}"
  then have "folders g1 = {A, A @ ''/'' @ x}" "folders g2 = {A @ ''/'' @ x, B}"
    "folders g3 = {B, C}" "set hs = {g1, g2, g3}" by simp_all
  then show "\<exists>g. compact_nested_folders hs = Some [g] \<and> folders g = {A, A @ ''/'' @ x, B, C}"
    by (rule chain_collapses)
qed

theorem compact_leaves_no_mergeable_pair_witness:
  "compact_nested_folders unrelated_groups = Some (rev unrelated_groups) \<and>
   \<not> mergeable (rev unrelated_groups ! 0) (rev unrelated_groups ! 1) \<and>
   \<not> mergeable (rev unrelated_groups ! 1) (rev unrelated_groups ! 0) \<and>
   set chain_groups = {chain_groups ! 0, chain_groups ! 2, chain_groups ! 1} \<and>
   compact_nested_folders chain_groups = Some [chain_merged]"
proof -
  note t = compact_leaves_no_mergeable_pair[of unrelated_groups]
  have b: "compact_nested_folders unrelated_groups = Some (rev unrelated_groups)" by code_simp
  have l: "length (rev unrelated_groups) = 2" by code_simp
  from t b have "\<forall>i \<in> {0 ..< length (rev unrelated_groups)}. \<forall>j \<in> {0 ..< length (rev unrelated_groups)}.
      i \<noteq> j \<longrightarrow> \<not> mergeable (rev unrelated_groups ! i) (rev unrelated_groups ! j)"
    by simp
  then have nm: "\<not> mergeable (rev unrelated_groups ! 0) (rev unrelated_groups ! 1)"
    "\<not> mergeable (rev unrelated_groups ! 1) (rev unrelated_groups ! 0)"
    unfolding l by simp_all
  have f1: "folders (chain_groups ! 0) = {''A'', ''A'' @ ''/'' @ ''x''}"
    and f2: "folders (chain_groups ! 2) = {''A'' @ ''/'' @ ''x'', ''B''}"
    and f3: "folders (chain_groups ! 1) = {''B'', ''C''}"
    and s: "set chain_groups = {chain_groups ! 0, chain_groups ! 2, chain_groups ! 1}"
    by (simp_all add: chain_groups_def insert_commute)
  from t have "\<exists>g. compact_nested_folders chain_groups = Some [g] \<and>
      folders g = {''A'', ''A'' @ ''/'' @ ''x'', ''B'', ''C''}"
    using f1 f2 f3 s by blast
  moreover have "compact_nested_folders chain_groups = Some [chain_merged]" by code_simp
  ultimately show ?thesis using b nm s by simp
qed

text \<open>
  C5: for a record list in which all records sharing a \<open>group_id\<close> have equal size, every
  group that \<open>compact_nested_folders\<close> returns on the result of \<open>analyze_folder_groups\<close>
  still has metrics consistent with its \<open>shared_files\<close>: recomputing them with the loops
  of \<open>analyze_folder_groups\<close> gives the stored values, and they are the sums of the
  specification for every per-copy size assignment. The merge adds the metrics, and no
  cluster ID is ever in two groups.
\<close>

theorem merged_metrics_consistent:
  assumes "equal_size_per_group files"
  shows "(\<exists>sz. per_copy_size sz files) \<and>
         (\<exists>gs out. analyze_folder_groups m files = Inr gs \<and>
            compact_nested_folders gs = Some out \<and>
            (\<forall>g \<in> set out. recomputes g \<and>
               (\<forall>sz. per_copy_size sz files \<longrightarrow> metrics_consistent sz g)))"
proof
  show "\<exists>sz. per_copy_size sz files" by (rule per_copy_size_exists[OF assms])
  obtain gs where gs: "analyze_folder_groups m files = Inr gs"
    by (simp add: analyze_folder_groups_eq)
  from compact_result[of "merge_invariant files" gs, OF analyze_invariant[OF gs] merge_invariant_step]
  obtain r where r: "compact_nested_folders gs = Some (sort_by_size_desc r)"
    "merge_invariant files r" by blast
  let ?out = "sort_by_size_desc r"
  from r(2) have inv: "merge_invariant files ?out" by (simp add: merge_invariant_sort)
  have "recomputes g \<and> (\<forall>sz. per_copy_size sz files \<longrightarrow> metrics_consistent sz g)"
    if g: "g \<in> set ?out" for g
  proof -
    from inv g have wf: "well_formed_group files g" by (simp add: merge_invariant_def)
    have d: "distinct (cluster_ids g)" by (rule merge_invariant_distinct[OF inv g])
    from well_formed_recomputes[OF wf] well_formed_metrics[OF wf d] show ?thesis by blast
  qed
  with gs r(1) show "\<exists>gs out. analyze_folder_groups m files = Inr gs \<and>
            compact_nested_folders gs = Some out \<and>
            (\<forall>g \<in> set out. recomputes g \<and>
               (\<forall>sz. per_copy_size sz files \<longrightarrow> metrics_consistent sz g))" by blast
qed

theorem merged_metrics_consistent_witness:
  "equal_size_per_group spread_files \<and>
   per_copy_size copies_sz spread_files \<and>
   analyze_folder_groups 0 spread_files = Inr spread_groups \<and>
   compact_nested_folders spread_groups = Some [spread_merged] \<and>
   recomputes spread_merged \<and>
   metrics_consistent copies_sz spread_merged \<and>
   wasted_space spread_merged = 1300"
proof -
  have h: "equal_size_per_group spread_files" by code_simp
  have p: "per_copy_size copies_sz spread_files" by code_simp
  have a: "analyze_folder_groups 0 spread_files = Inr spread_groups" by code_simp
  have b: "compact_nested_folders spread_groups = Some [spread_merged]" by code_simp
  have w: "wasted_space spread_merged = 1300" by (simp add: spread_merged_def)
  from merged_metrics_consistent[OF h, of 0] a b
  have "recomputes spread_merged"
    and "\<forall>sz. per_copy_size sz spread_files \<longrightarrow> metrics_consistent sz spread_merged"
    by simp_all
  with h p a b w show ?thesis by blast
qed

text \<open>
  C6: the list returned by \<open>analyze_folder_groups\<close> and the list returned by
  \<open>compact_nested_folders\<close> are each sorted by \<open>total_shared_size\<close> in descending
  order, for every input. Both functions return a list on every input.
\<close>

theorem outputs_sorted_descending:
  "(\<exists>gs. analyze_folder_groups m files = Inr gs \<and> descending_by_size gs) \<and>
   (\<exists>out. compact_nested_folders groups = Some out \<and> descending_by_size out)"
proof
  show "\<exists>gs. analyze_folder_groups m files = Inr gs \<and> descending_by_size gs"
    unfolding analyze_folder_groups_eq by (simp add: descending_sort_by_size_desc)
  from compact_result[of "\<lambda>_. True" groups] obtain r where
    "compact_nested_folders groups = Some (sort_by_size_desc r)" by auto
  then show "\<exists>out. compact_nested_folders groups = Some out \<and> descending_by_size out"
    by (simp add: descending_sort_by_size_desc)
qed

theorem outputs_sorted_descending_witness:
  "analyze_folder_groups 0 overlap_files = Inr overlap_groups \<and>
   descending_by_size overlap_groups \<and>
   total_shared_size (overlap_groups ! 1) \<le> total_shared_size (overlap_groups ! 0) \<and>
   compact_nested_folders unrelated_groups = Some (rev unrelated_groups) \<and>
   descending_by_size (rev unrelated_groups)"
proof -
  have a: "analyze_folder_groups 0 overlap_files = Inr overlap_groups" by code_simp
  have b: "compact_nested_folders unrelated_groups = Some (rev unrelated_groups)" by code_simp
  have c: "total_shared_size (overlap_groups ! 1) \<le> total_shared_size (overlap_groups ! 0)" by code_simp
  from outputs_sorted_descending[of 0 overlap_files unrelated_groups] a b c show ?thesis by simp
qed

text \<open>
  C7: a cluster whose records span exactly one distinct folder contributes to no group
  returned by \<open>analyze_folder_groups\<close>: its ID is a key of no group's \<open>shared_files\<close>, no
  record with that ID appears in any group, and the result is the same as for the input
  without the cluster's records (so no size or wasted space comes from it).
\<close>

theorem single_folder_cluster_excluded:
  assumes "card (folder ` set (filter (\<lambda>f. group_id f = gid) files)) = 1"
  shows "\<exists>gs. analyze_folder_groups m files = Inr gs \<and>
           (\<forall>g \<in> set gs. gid \<notin> set (cluster_ids g) \<and>
              (\<forall>item \<in> set (shared_files g). \<forall>f \<in> set (snd item). group_id f \<noteq> gid)) \<and>
           analyze_folder_groups m (filter (\<lambda>f. group_id f \<noteq> gid) files) = Inr gs"
proof -
  obtain gs where gs: "analyze_folder_groups m files = Inr gs"
    by (simp add: analyze_folder_groups_eq)
  have same: "analyze_folder_groups m (filter (\<lambda>f. group_id f \<noteq> gid) files) = Inr gs"
    using gs assms unfolding analyze_folder_groups_eq
    by (simp add: single_folder_cluster_skipped)
  have items: "fst item \<noteq> gid \<and> (\<forall>f \<in> set (snd item). group_id f = fst item)"
    if g: "g \<in> set gs" and item: "item \<in> set (shared_files g)" for g item
  proof -
    from gs g obtain K where K: "card K > 1"
      "g = group_of_entry (K, clusters_of K (groups_by_id files))"
      by (auto simp: analyze_folder_groups_set)
    from item K(2) have "item \<in> set (clusters_of K (groups_by_id files))"
      by (simp add: group_of_entry_def)
    then have s: "snd item = filter (\<lambda>f. group_id f = fst item) files"
      and f: "folder ` set (snd item) = K" unfolding clusters_of_set by blast+
    from s have "\<forall>f \<in> set (snd item). group_id f = fst item"
      by (metis (mono_tags, lifting) mem_Collect_eq set_filter)
    moreover have "fst item \<noteq> gid"
    proof
      assume "fst item = gid"
      with s f assms K(1) show False by simp
    qed
    ultimately show ?thesis by simp
  qed
  have "gid \<notin> set (cluster_ids g) \<and>
        (\<forall>item \<in> set (shared_files g). \<forall>f \<in> set (snd item). group_id f \<noteq> gid)"
    if g: "g \<in> set gs" for g
  proof
    show "gid \<notin> set (cluster_ids g)"
      using items[OF g] by (auto simp: cluster_ids_def)
    show "\<forall>item \<in> set (shared_files g). \<forall>f \<in> set (snd item). group_id f \<noteq> gid"
      using items[OF g] by metis
  qed
  with gs same show ?thesis by blast
qed

theorem single_folder_cluster_excluded_witness:
  "card (folder ` set (filter (\<lambda>f. group_id f = ''3'') lonely_files)) = 1 \<and>
   length (filter (\<lambda>f. group_id f = ''3'') lonely_files) = 2 \<and>
   analyze_folder_groups 0 lonely_files = Inr overlap_groups \<and>
   ''3'' \<notin> set (cluster_ids (overlap_groups ! 0)) \<and>
   ''3'' \<notin> set (cluster_ids (overlap_groups ! 1)) \<and>
   analyze_folder_groups 0 (filter (\<lambda>f. group_id f \<noteq> ''3'') lonely_files) = Inr overlap_groups"
proof -
  have h: "card (folder ` set (filter (\<lambda>f. group_id f = ''3'') lonely_files)) = 1"
    by code_simp
  have n: "length (filter (\<lambda>f. group_id f = ''3'') lonely_files) = 2" by code_simp
  have a: "analyze_folder_groups 0 lonely_files = Inr overlap_groups" by code_simp
  have l: "overlap_groups ! 0 \<in> set overlap_groups" "overlap_groups ! 1 \<in> set overlap_groups"
    by (simp_all add: overlap_groups_def)
  from single_folder_cluster_excluded[OF h, of 0] a
  have "\<forall>g \<in> set overlap_groups. ''3'' \<notin> set (cluster_ids g) \<and>
              (\<forall>item \<in> set (shared_files g). \<forall>f \<in> set (snd item). group_id f \<noteq> ''3'')"
    and "analyze_folder_groups 0 (filter (\<lambda>f. group_id f \<noteq> ''3'') lonely_files) = Inr overlap_groups"
    by simp_all
  with h n a l show ?thesis by blast
qed

text \<open>
  C8: \<open>compact_nested_folders\<close> is idempotent. It returns a list, and applied to that
  list it returns the very same list: the same groups with the same folder sets, shared
  files, sizes and wasted space, in the same order.
\<close>

theorem compact_idempotent:
  "\<exists>out. compact_nested_folders gs = Some out \<and> compact_nested_folders out = Some out"
proof (cases "gs = []")
  case True
  then show ?thesis by (simp add: compact_nested_folders_def)
next
  case False
  obtain r where r: "merge_loop gs = Some r" "first_mergeable r = None"
    using merge_loop_terminates by blast
  let ?out = "sort_by_size_desc r"
  have out: "compact_nested_folders gs = Some ?out"
    using False r by (simp add: compact_nested_folders_def)
  have "first_mergeable ?out = None" using r by (simp add: first_mergeable_sort)
  then have "merge_loop ?out = Some ?out" by (rule merge_loop_fixed)
  then have "compact_nested_folders ?out = Some ?out"
    by (cases "sort_by_size_desc r = []") (simp_all add: compact_nested_folders_def sort_by_size_desc_idem)
  with out show ?thesis by simp
qed

theorem compact_idempotent_witness:
  "compact_nested_folders nested_test_groups = Some [nested_test_merged] \<and>
   compact_nested_folders [nested_test_merged] = Some [nested_test_merged]"
proof -
  have c: "compact_nested_folders nested_test_groups = Some [nested_test_merged]" by code_simp
  from compact_idempotent[of nested_test_groups] c show ?thesis by simp
qed

text \<open>
  C9: \<open>compact_nested_folders\<close> terminates on every list of groups. The \<open>while True\<close>
  loop returns, with a list on which a full scan finds no pair to merge, the function
  returns a list, and every merge makes the list exactly one group shorter.
\<close>

theorem compact_terminates:
  "(\<exists>r. merge_loop gs = Some r \<and> first_mergeable r = None) \<and>
   (\<exists>out. compact_nested_folders gs = Some out) \<and>
   (\<forall>i j. first_mergeable gs = Some (i, j) \<longrightarrow> Suc (length (merge_at i j gs)) = length gs)"
proof (intro conjI allI impI)
  show "\<exists>r. merge_loop gs = Some r \<and> first_mergeable r = None" by (rule merge_loop_terminates)
  show "\<exists>out. compact_nested_folders gs = Some out" by (rule compact_total)
next
  fix i j assume "first_mergeable gs = Some (i, j)"
  from first_mergeable_Some[OF this] show "Suc (length (merge_at i j gs)) = length gs"
    by (auto simp: merge_at_def pop_def)
qed

theorem compact_terminates_witness:
  "first_mergeable nested_test_groups = Some (0, 1) \<and>
   Suc (length (merge_at 0 1 nested_test_groups)) = length nested_test_groups \<and>
   merge_loop nested_test_groups = Some [nested_test_merged] \<and>
   first_mergeable [nested_test_merged] = None \<and>
   compact_nested_folders nested_test_groups = Some [nested_test_merged]"
proof -
  have a: "first_mergeable nested_test_groups = Some (0, 1)" by code_simp
  have b: "merge_loop nested_test_groups = Some [nested_test_merged]" by code_simp
  have c: "compact_nested_folders nested_test_groups = Some [nested_test_merged]" by code_simp
  have d: "first_mergeable [nested_test_merged] = None" by code_simp
  from compact_terminates[of nested_test_groups] a b c d show ?thesis by simp
qed

text \<open>
  C10 as stated, for every input list, fails: \<open>total_shared_size\<close> is read from the
  first record of a cluster, so when two records of one cluster differ in size, reversing
  the list changes the metrics of the group.
\<close>

theorem permutation_counterexample:
  "mset (rev unequal_files) = mset unequal_files \<and>
   analyze_folder_groups 0 unequal_files = Inr [unequal_first] \<and>
   analyze_folder_groups 0 (rev unequal_files) = Inr [unequal_second] \<and>
   total_shared_size unequal_first = 1000 \<and>
   total_shared_size unequal_second = 2000 \<and>
   \<not> same_groups [unequal_first] [unequal_second]"
proof -
  have a: "analyze_folder_groups 0 unequal_files = Inr [unequal_first]" by code_simp
  have b: "analyze_folder_groups 0 (rev unequal_files) = Inr [unequal_second]" by code_simp
  have t: "total_shared_size unequal_first = 1000" "total_shared_size unequal_second = 2000"
    by (simp_all add: unequal_first_def unequal_second_def)
  have "fst (snd (group_view unequal_first)) \<noteq> fst (snd (group_view unequal_second))"
    by (simp add: group_view_def t)
  then have "group_view unequal_first \<noteq> group_view unequal_second" by metis
  then have "\<not> same_groups [unequal_first] [unequal_second]"
    by (simp add: same_groups_def)
  with a b t show ?thesis by simp
qed

text \<open>
  C10, as amended: for every record list in which all records sharing a \<open>group_id\<close> have
  equal size, and every permutation of it, \<open>analyze_folder_groups\<close> returns the same
  collection of groups up to list order and per-cluster record order: the same multiset
  of folder sets with their \<open>total_shared_size\<close>, \<open>wasted_space\<close> and, for every cluster
  ID, the same records.
\<close>

theorem permutation_invariant:
  assumes "equal_size_per_group files" and "mset files' = mset files"
  shows "\<exists>gs gs'. analyze_folder_groups m files = Inr gs \<and>
           analyze_folder_groups m files' = Inr gs' \<and> same_groups gs gs'"
proof -
  obtain gs where gs: "analyze_folder_groups m files = Inr gs"
    by (simp add: analyze_folder_groups_eq)
  obtain gs' where gs': "analyze_folder_groups m files' = Inr gs'"
    by (simp add: analyze_folder_groups_eq)
  from per_copy_size_exists[OF assms(1)] obtain sz where sz: "per_copy_size sz files" by blast
  from assms(2) have "set files' = set files" by (rule mset_eq_setD)
  with sz have sz': "per_copy_size sz files'" by (simp add: per_copy_size_def)
  have "group_view ` set gs \<subseteq> group_view ` set gs'"
    by (rule analyze_views_subset[OF sz assms(2) gs gs'])
  moreover have "group_view ` set gs' \<subseteq> group_view ` set gs"
    by (rule analyze_views_subset[OF sz' assms(2)[symmetric] gs' gs])
  ultimately have "set (map group_view gs) = set (map group_view gs')" by auto
  then have "mset (map group_view gs) = mset (map group_view gs')"
    using analyze_views_distinct[OF gs] analyze_views_distinct[OF gs']
      set_eq_iff_mset_eq_distinct by blast
  then have "same_groups gs gs'" by (simp add: same_groups_def)
  with gs gs' show ?thesis by blast
qed

theorem permutation_invariant_witness:
  "equal_size_per_group copies_files \<and>
   mset (rev copies_files) = mset copies_files \<and>
   analyze_folder_groups 0 copies_files = Inr [copies_group] \<and>
   analyze_folder_groups 0 (rev copies_files) = Inr [copies_group_rev] \<and>
   shared_files copies_group \<noteq> shared_files copies_group_rev \<and>
   same_groups [copies_group] [copies_group_rev]"
proof -
  have h: "equal_size_per_group copies_files" by code_simp
  have p: "mset (rev copies_files) = mset copies_files" by simp
  have a: "analyze_folder_groups 0 copies_files = Inr [copies_group]" by code_simp
  have b: "analyze_folder_groups 0 (rev copies_files) = Inr [copies_group_rev]" by code_simp
  have n: "shared_files copies_group \<noteq> shared_files copies_group_rev"
    by (simp add: copies_group_def copies_group_rev_def)
  from permutation_invariant[OF h p, of 0] a b
  have "same_groups [copies_group] [copies_group_rev]" by simp
  with h p a b n show ?thesis by simp
qed

end
